theory Spec2Isabelle
  imports Complex_Main "HOL-Library.Multiset" "HOL-Library.Log_Nat" "HOL-Library.Product_Lexorder"
begin

section \<open>Python floats\<close>

text \<open>
  The numbers of the optimizer (tab 2 of \<^verbatim>\<open>app.py\<close>) are Python floats, that is IEEE 754
  binary64 values: the sidebar inputs are floats, and an \<^verbatim>\<open>int\<close> that meets a float in an
  operation (\<^verbatim>\<open>n\<close>, \<^verbatim>\<open>0\<close>, \<^verbatim>\<open>10000\<close>) is converted exactly. A finite float is the rational
  it denotes; \<open>fl\<close> adds the two infinities and NaN. The two zeros are one value: they
  compare equal and the source never divides by a float. Every operation returns the
  exact result rounded to the nearest float, ties to the even significand, and an
  infinity when the rounded magnitude exceeds the largest float.
\<close>

datatype fl = Fin rat | PInf | NInf | NaN

text \<open>For \<open>0 < x\<close>, \<open>ilog2 x\<close> is the integer \<open>e\<close> with \<open>2\<^sup>e \<le> x < 2\<^sup>e\<^sup>+\<^sup>1\<close>.\<close>

definition ilog2 :: "rat \<Rightarrow> int" where
  "ilog2 x = (if 1 \<le> x then bitlen \<lfloor>x\<rfloor> - 1 else - bitlen (\<lceil>1 / x\<rceil> - 1))"

text \<open>Rounding to the nearest integer, a tie to the even one.\<close>

definition rhe :: "rat \<Rightarrow> int" where
  "rhe z =
     (let f = \<lfloor>z\<rfloor>; d = z - of_int f
      in if d < 1 / 2 then f else if 1 / 2 < d then f + 1 else if even f then f else f + 1)"

text \<open>
  The exponent of the last place of the significand of \<open>x\<close>: 53 bits, and the fixed
  exponent \<open>-1074\<close> in the subnormal range.
\<close>

definition ulp_exp :: "rat \<Rightarrow> int" where
  "ulp_exp x = max (ilog2 \<bar>x\<bar>) (- 1022) - 52"

definition rd :: "rat \<Rightarrow> rat" where
  "rd x =
     (if x = 0 then 0
      else sgn x * of_int (rhe (\<bar>x\<bar> / 2 powi ulp_exp x)) * 2 powi ulp_exp x)"

text \<open>The largest finite float, \<open>(2\<^sup>5\<^sup>3 - 1) \<sqdot> 2\<^sup>9\<^sup>7\<^sup>1\<close>.\<close>

definition maxd :: rat where
  "maxd = (2 ^ 53 - 1) * 2 ^ 971"

definition fl_of :: "rat \<Rightarrow> fl" where
  "fl_of x = (let r = rd x in if maxd < r then PInf else if r < - maxd then NInf else Fin r)"

text \<open>A rational that is a finite float: the sidebar's inputs are such.\<close>

definition is_double :: "rat \<Rightarrow> bool" where
  "is_double x \<longleftrightarrow> rd x = x \<and> \<bar>x\<bar> \<le> maxd"

text \<open>The comparisons \<^verbatim>\<open><=\<close> and \<^verbatim>\<open><\<close>; every comparison with NaN is false.\<close>

fun xle :: "fl \<Rightarrow> fl \<Rightarrow> bool" where
  "xle NaN b = False"
| "xle a NaN = False"
| "xle NInf b = True"
| "xle a PInf = True"
| "xle (Fin x) (Fin y) = (x \<le> y)"
| "xle PInf b = False"
| "xle a NInf = False"

fun xlt :: "fl \<Rightarrow> fl \<Rightarrow> bool" where
  "xlt NaN b = False"
| "xlt a NaN = False"
| "xlt (Fin x) (Fin y) = (x < y)"
| "xlt PInf b = False"
| "xlt a NInf = False"
| "xlt NInf b = True"
| "xlt a PInf = True"

text \<open>The operations \<^verbatim>\<open>+\<close>, \<^verbatim>\<open>-\<close>, \<^verbatim>\<open>*\<close>, and \<^verbatim>\<open>/\<close> by a positive \<^verbatim>\<open>int\<close>.\<close>

fun fneg :: "fl \<Rightarrow> fl" where
  "fneg (Fin x) = Fin (- x)"
| "fneg PInf = NInf"
| "fneg NInf = PInf"
| "fneg NaN = NaN"

fun fadd :: "fl \<Rightarrow> fl \<Rightarrow> fl" where
  "fadd NaN b = NaN"
| "fadd a NaN = NaN"
| "fadd (Fin x) (Fin y) = fl_of (x + y)"
| "fadd PInf NInf = NaN"
| "fadd NInf PInf = NaN"
| "fadd PInf b = PInf"
| "fadd NInf b = NInf"
| "fadd a PInf = PInf"
| "fadd a NInf = NInf"

definition fsub :: "fl \<Rightarrow> fl \<Rightarrow> fl" where
  "fsub a b = fadd a (fneg b)"

fun fmul :: "fl \<Rightarrow> fl \<Rightarrow> fl" where
  "fmul NaN b = NaN"
| "fmul a NaN = NaN"
| "fmul (Fin x) (Fin y) = fl_of (x * y)"
| "fmul (Fin x) PInf = (if x = 0 then NaN else if 0 < x then PInf else NInf)"
| "fmul (Fin x) NInf = (if x = 0 then NaN else if 0 < x then NInf else PInf)"
| "fmul PInf (Fin y) = (if y = 0 then NaN else if 0 < y then PInf else NInf)"
| "fmul NInf (Fin y) = (if y = 0 then NaN else if 0 < y then NInf else PInf)"
| "fmul PInf PInf = PInf"
| "fmul PInf NInf = NInf"
| "fmul NInf PInf = NInf"
| "fmul NInf NInf = PInf"

text \<open>
  The only division of the source is by \<^verbatim>\<open>n\<close>, which ranges over \<^verbatim>\<open>[1, 2, 3, 4, 5]\<close>, so the
  divisor of \<open>fdiv\<close> is a positive integer.
\<close>

fun fdiv :: "fl \<Rightarrow> int \<Rightarrow> fl" where
  "fdiv (Fin x) n = fl_of (x / of_int n)"
| "fdiv PInf n = PInf"
| "fdiv NInf n = NInf"
| "fdiv NaN n = NaN"

text \<open>
  \<^verbatim>\<open>max\<close> keeps its current maximum unless the next item compares greater, so a NaN that
  comes first stays.
\<close>

definition pymax :: "fl \<Rightarrow> fl \<Rightarrow> fl" where
  "pymax m v = (if xlt m v then v else m)"

section \<open>Data model\<close>

text \<open>
  The sidebar values \<^verbatim>\<open>ROLL_WIDTH\<close> and \<^verbatim>\<open>OVERLAP\<close>, which the source reads as globals, are
  explicit parameters, as are the widths and heights of the jobs: finite floats, given
  by the rationals they denote. \<^verbatim>\<open>ITERATIONS\<close> is the length of the list of shuffle
  outcomes handed to \<open>optimize\<close>.
\<close>

text \<open>A job is the tuple \<^verbatim>\<open>(pid, w, h, q)\<close>.\<close>

type_synonym job = "int \<times> rat \<times> rat \<times> int"

text \<open>A piece is the dict \<^verbatim>\<open>{"pid": pid, "orientations": [(w1, h1), (w2, h2)]}\<close>.\<close>

record piece =
  pid :: int
  orientations :: "(fl \<times> fl) list"

text \<open>A free rectangle is the tuple \<^verbatim>\<open>(fx, fy, fw, fh)\<close>.\<close>

type_synonym rect = "fl \<times> fl \<times> fl \<times> fl"

text \<open>A placement is the tuple \<^verbatim>\<open>(pid, fx, fy, w, h)\<close>.\<close>

type_synonym placement = "int \<times> fl \<times> fl \<times> fl \<times> fl"

text \<open>The candidate kept by the packer is \<^verbatim>\<open>(waste, fx, fy, fw, fh, w, h)\<close>.\<close>

type_synonym candidate = "fl \<times> fl \<times> fl \<times> fl \<times> fl \<times> fl \<times> fl"

datatype error = ValueError

section \<open>Tiling\<close>

text \<open>
  \<^verbatim>\<open>
  def tile_width_only(w, roll):
      for n in [1, 2, 3, 4, 5]:
          if w <= n * roll - (n - 1) * OVERLAP:
              return (w + (n - 1) * OVERLAP) / n, n
      return None, None
  \<close>
  The pair \<^verbatim>\<open>(None, None)\<close> is the value \<open>None\<close>.
\<close>

fun tile_loop :: "rat \<Rightarrow> rat \<Rightarrow> rat \<Rightarrow> int list \<Rightarrow> (fl \<times> int) option" where
  "tile_loop OVERLAP w roll [] = None"
| "tile_loop OVERLAP w roll (n # ns) =
     (if xle (Fin w) (fsub (fmul (Fin (of_int n)) (Fin roll)) (fmul (Fin (of_int (n - 1))) (Fin OVERLAP)))
      then Some (fdiv (fadd (Fin w) (fmul (Fin (of_int (n - 1))) (Fin OVERLAP))) n, n)
      else tile_loop OVERLAP w roll ns)"

definition tile_width_only :: "rat \<Rightarrow> rat \<Rightarrow> rat \<Rightarrow> (fl \<times> int) option" where
  "tile_width_only OVERLAP w roll = tile_loop OVERLAP w roll [1, 2, 3, 4, 5]"

text \<open>
  \<^verbatim>\<open>
  def expand(jobs):
      pieces = []
      for pid, w, h, q in jobs:
          tile_w, n = tile_width_only(w, ROLL_WIDTH)
          if tile_w is None:
              return None
          for _ in range(q):
              for _ in range(n):
                  pieces.append({"pid": pid, "orientations": [(tile_w, h), (h, tile_w)]})
      return pieces
  \<close>
  \<^verbatim>\<open>range(q)\<close> is empty for \<^verbatim>\<open>q <= 0\<close>, which is what \<open>nat\<close> gives.
\<close>

fun expand_loop :: "rat \<Rightarrow> rat \<Rightarrow> job list \<Rightarrow> piece list \<Rightarrow> piece list option" where
  "expand_loop ROLL_WIDTH OVERLAP [] pieces = Some pieces"
| "expand_loop ROLL_WIDTH OVERLAP ((pid_j, w, h, q) # jobs) pieces =
     (case tile_width_only OVERLAP w ROLL_WIDTH of
        None \<Rightarrow> None
      | Some (tile_w, n) \<Rightarrow>
          expand_loop ROLL_WIDTH OVERLAP jobs
            (pieces @ concat (replicate (nat q) (replicate (nat n)
               \<lparr>pid = pid_j, orientations = [(tile_w, Fin h), (Fin h, tile_w)]\<rparr>))))"

definition expand :: "rat \<Rightarrow> rat \<Rightarrow> job list \<Rightarrow> piece list option" where
  "expand ROLL_WIDTH OVERLAP jobs = expand_loop ROLL_WIDTH OVERLAP jobs []"

section \<open>Guillotine packer\<close>

text \<open>
  \<^verbatim>\<open>
  def pack(pieces):
      free = [(0, 0, ROLL_WIDTH, 10000)]
      placed = []
      for p in pieces:
          best = None
          for fx, fy, fw, fh in free:
              for w, h in p["orientations"]:
                  if w <= fw and h <= fh:
                      waste = fw * fh - w * h
                      if not best or waste < best[0]:
                          best = (waste, fx, fy, fw, fh, w, h)
          if not best:
              return None
          _, fx, fy, fw, fh, w, h = best
          placed.append((p["pid"], fx, fy, w, h))
          free.remove((fx, fy, fw, fh))
          right = (fx + w, fy, fw - w, h)
          bottom = (fx, fy + h, fw, fh - h)
          if right[2] > 0 and right[3] > 0:
              free.append(right)
          if bottom[2] > 0 and bottom[3] > 0:
              free.append(bottom)
      return placed
  \<close>
  \<open>try_orientation\<close> is the body of the innermost loop, \<open>scan_free\<close> the loop over the
  orientations for one free rectangle, \<open>find_best\<close> the loop over the free list. A
  non-\<^verbatim>\<open>None\<close> \<^verbatim>\<open>best\<close> is a 7-tuple, which Python takes as true, so \<^verbatim>\<open>not best\<close> is the
  test for \<open>None\<close>.
\<close>

definition try_orientation :: "rect \<Rightarrow> candidate option \<Rightarrow> fl \<times> fl \<Rightarrow> candidate option" where
  "try_orientation f best ori =
     (case f of (fx, fy, fw, fh) \<Rightarrow>
        (case ori of (w, h) \<Rightarrow>
           if xle w fw \<and> xle h fh
           then (let waste = fsub (fmul fw fh) (fmul w h) in
                 case best of
                   None \<Rightarrow> Some (waste, fx, fy, fw, fh, w, h)
                 | Some b \<Rightarrow> if xlt waste (fst b) then Some (waste, fx, fy, fw, fh, w, h) else best)
           else best))"

definition scan_free :: "(fl \<times> fl) list \<Rightarrow> candidate option \<Rightarrow> rect \<Rightarrow> candidate option" where
  "scan_free oris best f = foldl (try_orientation f) best oris"

definition find_best :: "rect list \<Rightarrow> (fl \<times> fl) list \<Rightarrow> candidate option" where
  "find_best free oris = foldl (scan_free oris) None free"

text \<open>
  The rest of the loop body, once \<^verbatim>\<open>best\<close> is known. \<^verbatim>\<open>free.remove\<close> deletes the first
  element equal to the chosen rectangle, which \<open>remove1\<close> does; the chosen rectangle was
  read from \<^verbatim>\<open>free\<close>, so the \<^verbatim>\<open>ValueError\<close> of a missing element cannot occur.
\<close>

definition positive_dims :: "rect \<Rightarrow> bool" where
  "positive_dims r = (case r of (x, y, rw, rh) \<Rightarrow> xlt (Fin 0) rw \<and> xlt (Fin 0) rh)"

definition place :: "rect list \<Rightarrow> placement list \<Rightarrow> piece \<Rightarrow> candidate \<Rightarrow> rect list \<times> placement list" where
  "place free placed p best =
     (case best of (waste, fx, fy, fw, fh, w, h) \<Rightarrow>
        (let right = (fadd fx w, fy, fsub fw w, h);
             bottom = (fx, fadd fy h, fw, fsub fh h)
         in (remove1 (fx, fy, fw, fh) free
               @ (if positive_dims right then [right] else [])
               @ (if positive_dims bottom then [bottom] else []),
             placed @ [(pid p, fx, fy, w, h)])))"

definition pack_step :: "rect list \<Rightarrow> placement list \<Rightarrow> piece \<Rightarrow> (rect list \<times> placement list) option" where
  "pack_step free placed p =
     (case find_best free (orientations p) of
        None \<Rightarrow> None
      | Some best \<Rightarrow> Some (place free placed p best))"

fun pack_loop :: "rect list \<Rightarrow> placement list \<Rightarrow> piece list \<Rightarrow> (rect list \<times> placement list) option" where
  "pack_loop free placed [] = Some (free, placed)"
| "pack_loop free placed (p # ps) =
     (case pack_step free placed p of
        None \<Rightarrow> None
      | Some (free', placed') \<Rightarrow> pack_loop free' placed' ps)"

definition pack :: "rat \<Rightarrow> piece list \<Rightarrow> placement list option" where
  "pack ROLL_WIDTH pieces =
     map_option snd (pack_loop [(Fin 0, Fin 0, Fin ROLL_WIDTH, Fin 10000)] [] pieces)"

text \<open>
  \<^verbatim>\<open>
  def length(placed):
      return max(y + h for _, _, y, _, h in placed)
  \<close>
  \<^verbatim>\<open>max\<close> of an empty sequence raises \<^verbatim>\<open>ValueError\<close>.
\<close>

definition length_layout :: "placement list \<Rightarrow> error + fl" where
  "length_layout placed =
     (case map (\<lambda>(_, _, y, _, h). fadd y h) placed of
        [] \<Rightarrow> Inl ValueError
      | v # vs \<Rightarrow> Inr (foldl pymax v vs))"

section \<open>Multi-pass search\<close>

text \<open>
  \<^verbatim>\<open>
  def optimize(pieces):
      best_len = None
      best_layout = None
      for _ in range(ITERATIONS):
          random.shuffle(pieces)
          layout = pack(pieces)
          if layout:
              l = length(layout)
              if not best_len or l < best_len:
                  best_len = l
                  best_layout = layout
      return best_layout, best_len
  \<close>
  The random source is a parameter: one function per pass, giving the order
  \<^verbatim>\<open>random.shuffle\<close> leaves the list in. The shuffle is in place, so the list after the
  pass is the shuffled one, and \<open>optimize\<close> returns the caller's list as a third component.
  \<^verbatim>\<open>if layout\<close> is false for \<^verbatim>\<open>None\<close> and for the empty list; \<^verbatim>\<open>not best_len\<close> is true
  for \<^verbatim>\<open>None\<close> and for a zero, and false for every other float, NaN included.
\<close>

definition replaces :: "fl option \<Rightarrow> fl \<Rightarrow> bool" where
  "replaces best_len l = (case best_len of None \<Rightarrow> True | Some b \<Rightarrow> b = Fin 0 \<or> xlt l b)"

fun optimize_loop ::
  "rat \<Rightarrow> (piece list \<Rightarrow> piece list) list \<Rightarrow> piece list \<Rightarrow> placement list option \<Rightarrow> fl option
   \<Rightarrow> error + (placement list option \<times> fl option \<times> piece list)" where
  "optimize_loop ROLL_WIDTH [] pieces best_layout best_len = Inr (best_layout, best_len, pieces)"
| "optimize_loop ROLL_WIDTH (shuffle # rest) pieces best_layout best_len =
     (let pieces' = shuffle pieces in
      case pack ROLL_WIDTH pieces' of
        None \<Rightarrow> optimize_loop ROLL_WIDTH rest pieces' best_layout best_len
      | Some layout \<Rightarrow>
          if layout = [] then optimize_loop ROLL_WIDTH rest pieces' best_layout best_len
          else (case length_layout layout of
                  Inl e \<Rightarrow> Inl e
                | Inr l \<Rightarrow>
                    if replaces best_len l
                    then optimize_loop ROLL_WIDTH rest pieces' (Some layout) (Some l)
                    else optimize_loop ROLL_WIDTH rest pieces' best_layout best_len))"

definition optimize ::
  "rat \<Rightarrow> (piece list \<Rightarrow> piece list) list \<Rightarrow> piece list
   \<Rightarrow> error + (placement list option \<times> fl option \<times> piece list)" where
  "optimize ROLL_WIDTH passes pieces = optimize_loop ROLL_WIDTH passes pieces None None"

text \<open>
  The run that calls the optimizer:
  \<^verbatim>\<open>
  pieces = expand(jobs)
  if not pieces:
      st.error("Some panels cannot fit the roll width.")
      st.stop()
  best, total = optimize(pieces)
  \<close>
  \<^verbatim>\<open>not pieces\<close> is true for \<^verbatim>\<open>None\<close> and for the empty list; \<^verbatim>\<open>st.stop()\<close> ends the run.
\<close>

datatype outcome = Stopped | Optimized "error + (placement list option \<times> fl option \<times> piece list)"

definition run_optimizer ::
  "rat \<Rightarrow> rat \<Rightarrow> (piece list \<Rightarrow> piece list) list \<Rightarrow> job list \<Rightarrow> outcome" where
  "run_optimizer ROLL_WIDTH OVERLAP passes jobs =
     (case expand ROLL_WIDTH OVERLAP jobs of
        None \<Rightarrow> Stopped
      | Some pieces \<Rightarrow>
          if pieces = [] then Stopped else Optimized (optimize ROLL_WIDTH passes pieces))"

section \<open>Notions used in the statements and proofs\<close>

text \<open>
  The bound tested for tile count \<open>n\<close>, the strip width, and the pieces one job
  contributes, with the arithmetic of the source.
\<close>

definition tile_fits :: "rat \<Rightarrow> rat \<Rightarrow> rat \<Rightarrow> int \<Rightarrow> bool" where
  "tile_fits OVERLAP w roll n \<longleftrightarrow>
     xle (Fin w) (fsub (fmul (Fin (of_int n)) (Fin roll)) (fmul (Fin (of_int (n - 1))) (Fin OVERLAP)))"

definition strip_width :: "rat \<Rightarrow> rat \<Rightarrow> int \<Rightarrow> fl" where
  "strip_width OVERLAP w n = fdiv (fadd (Fin w) (fmul (Fin (of_int (n - 1))) (Fin OVERLAP))) n"

definition job_pieces :: "rat \<Rightarrow> rat \<Rightarrow> job \<Rightarrow> piece list" where
  "job_pieces ROLL_WIDTH OVERLAP j =
     (case j of (pid_j, w, h, q) \<Rightarrow>
        (case tile_width_only OVERLAP w ROLL_WIDTH of
           None \<Rightarrow> []
         | Some (tile_w, n) \<Rightarrow>
             replicate (nat (q * n)) \<lparr>pid = pid_j, orientations = [(tile_w, Fin h), (Fin h, tile_w)]\<rparr>))"

text \<open>
  The selection rule of the packer: among the pairs of a free rectangle and an
  orientation in which the piece fits, listed free rectangle by free rectangle and
  orientation by orientation, the first one whose leftover area is the smallest.
\<close>

definition fits :: "rect \<Rightarrow> fl \<times> fl \<Rightarrow> bool" where
  "fits f ori = (case f of (fx, fy, fw, fh) \<Rightarrow> case ori of (w, h) \<Rightarrow> xle w fw \<and> xle h fh)"

definition leftover :: "rect \<times> (fl \<times> fl) \<Rightarrow> fl" where
  "leftover c = (case c of ((fx, fy, fw, fh), (w, h)) \<Rightarrow> fsub (fmul fw fh) (fmul w h))"

definition fitting_pairs :: "rect list \<Rightarrow> (fl \<times> fl) list \<Rightarrow> (rect \<times> (fl \<times> fl)) list" where
  "fitting_pairs free oris = concat (map (\<lambda>f. map (\<lambda>ori. (f, ori)) (filter (fits f) oris)) free)"

definition select_pair :: "rect list \<Rightarrow> (fl \<times> fl) list \<Rightarrow> (rect \<times> (fl \<times> fl)) option" where
  "select_pair free oris =
     (let cands = fitting_pairs free oris
      in find (\<lambda>c. \<forall>d \<in> set cands. xle (leftover c) (leftover d)) cands)"

definition remainders :: "rect \<Rightarrow> fl \<times> fl \<Rightarrow> rect list" where
  "remainders f ori =
     (case f of (fx, fy, fw, fh) \<Rightarrow> case ori of (w, h) \<Rightarrow>
        filter positive_dims [(fadd fx w, fy, fsub fw w, h), (fx, fadd fy h, fw, fsub fh h)])"

text \<open>
  The tuple the packer keeps for a pair, and the update of \<^verbatim>\<open>best\<close> by one fitting pair.
\<close>

definition cand_of :: "rect \<times> (fl \<times> fl) \<Rightarrow> candidate" where
  "cand_of c =
     (case c of ((fx, fy, fw, fh), (w, h)) \<Rightarrow> (fsub (fmul fw fh) (fmul w h), fx, fy, fw, fh, w, h))"

definition keep_better :: "candidate option \<Rightarrow> candidate \<Rightarrow> candidate option" where
  "keep_better best c =
     (case best of None \<Rightarrow> Some c | Some b \<Rightarrow> if xlt (fst c) (fst b) then Some c else best)"

text \<open>
  The floats other than NaN in their order, as pairs compared lexicographically.
\<close>

fun key :: "fl \<Rightarrow> int \<times> rat" where
  "key NInf = (- 1, 0)"
| "key (Fin x) = (0, x)"
| "key PInf = (1, 0)"
| "key NaN = (2, 0)"

text \<open>A placement that carries a piece's identifier and one of its orientations.\<close>

definition is_placement_of :: "piece \<Rightarrow> placement \<Rightarrow> bool" where
  "is_placement_of p pl = (case pl of (i, x, y, w, h) \<Rightarrow> i = pid p \<and> (w, h) \<in> set (orientations p))"

text \<open>
  Rectangles as regions of the plane: the exact coordinates of a rectangle whose four
  numbers are finite, the region a placement covers, overlap of two regions (their open
  interiors meet; it is not excluded when a coordinate is not finite), and the roll's
  width, all in exact arithmetic on the stored values.
\<close>

fun fin :: "fl \<Rightarrow> rat option" where
  "fin (Fin x) = Some x"
| "fin v = None"

definition exact_rect :: "rect \<Rightarrow> (rat \<times> rat \<times> rat \<times> rat) option" where
  "exact_rect r =
     (case r of (a, b, c, d) \<Rightarrow>
        (case fin a of None \<Rightarrow> None | Some x \<Rightarrow>
        (case fin b of None \<Rightarrow> None | Some y \<Rightarrow>
        (case fin c of None \<Rightarrow> None | Some w \<Rightarrow>
        (case fin d of None \<Rightarrow> None | Some h \<Rightarrow> Some (x, y, w, h))))))"

definition area_of :: "placement \<Rightarrow> rect" where
  "area_of pl = (case pl of (i, x, y, w, h) \<Rightarrow> (x, y, w, h))"

definition overlaps :: "rect \<Rightarrow> rect \<Rightarrow> bool" where
  "overlaps a b =
     (case exact_rect a of None \<Rightarrow> True | Some (x1, y1, w1, h1) \<Rightarrow>
     (case exact_rect b of None \<Rightarrow> True | Some (x2, y2, w2, h2) \<Rightarrow>
        x1 < x2 + w2 \<and> x2 < x1 + w1 \<and> y1 < y2 + h2 \<and> y2 < y1 + h1))"

definition within_roll :: "rat \<Rightarrow> rect \<Rightarrow> bool" where
  "within_roll ROLL_WIDTH r =
     (case exact_rect r of None \<Rightarrow> False | Some (x, y, w, h) \<Rightarrow> 0 \<le> x \<and> x + w \<le> ROLL_WIDTH)"

text \<open>Pieces whose dimensions are not negative, and pieces whose dimensions are positive floats.\<close>

definition nonneg_piece :: "piece \<Rightarrow> bool" where
  "nonneg_piece p = list_all (\<lambda>(w, h). xle (Fin 0) w \<and> xle (Fin 0) h) (orientations p)"

fun pos_float :: "fl \<Rightarrow> bool" where
  "pos_float (Fin x) = (0 < x \<and> is_double x)"
| "pos_float PInf = True"
| "pos_float v = False"

definition positive_piece :: "piece \<Rightarrow> bool" where
  "positive_piece p = list_all (\<lambda>(w, h). pos_float w \<and> pos_float h) (orientations p)"

text \<open>
  A packing in which no sum or difference is rounded: at every placement the six
  numbers are finite and the two sums and two differences of the split are the exact
  ones.
\<close>

definition exact_place :: "candidate \<Rightarrow> bool" where
  "exact_place best =
     (case best of (waste, fx, fy, fw, fh, w, h) \<Rightarrow>
        (case exact_rect (fx, fy, fw, fh) of None \<Rightarrow> False | Some (x, y, a, b) \<Rightarrow>
        (case exact_rect (fx, fy, w, h) of None \<Rightarrow> False | Some (x', y', c, d) \<Rightarrow>
           fadd fx w = Fin (x + c) \<and> fsub fw w = Fin (a - c)
           \<and> fadd fy h = Fin (y + d) \<and> fsub fh h = Fin (b - d))))"

fun exact_loop :: "rect list \<Rightarrow> placement list \<Rightarrow> piece list \<Rightarrow> bool" where
  "exact_loop free placed [] = True"
| "exact_loop free placed (p # ps) =
     (case find_best free (orientations p) of
        None \<Rightarrow> True
      | Some best \<Rightarrow>
          exact_place best
          \<and> (case place free placed p best of (free', placed') \<Rightarrow> exact_loop free' placed' ps))"

definition exact_pack :: "rat \<Rightarrow> piece list \<Rightarrow> bool" where
  "exact_pack ROLL_WIDTH pieces = exact_loop [(Fin 0, Fin 0, Fin ROLL_WIDTH, Fin 10000)] [] pieces"

text \<open>The state the packer keeps, within the working area and free of overlaps.\<close>

definition inside :: "rat \<Rightarrow> rect \<Rightarrow> bool" where
  "inside ROLL_WIDTH r =
     (case exact_rect r of None \<Rightarrow> False | Some (x, y, w, h) \<Rightarrow>
        0 \<le> x \<and> x + w \<le> ROLL_WIDTH \<and> 0 \<le> y \<and> y + h \<le> 10000)"

definition apart :: "rect \<Rightarrow> rect \<Rightarrow> bool" where
  "apart a b = (\<not> overlaps a b \<and> \<not> overlaps b a)"

definition contained :: "rect \<Rightarrow> rect \<Rightarrow> bool" where
  "contained a b =
     (case exact_rect a of None \<Rightarrow> False | Some (x1, y1, w1, h1) \<Rightarrow>
     (case exact_rect b of None \<Rightarrow> False | Some (x2, y2, w2, h2) \<Rightarrow>
        x2 \<le> x1 \<and> x1 + w1 \<le> x2 + w2 \<and> y2 \<le> y1 \<and> y1 + h1 \<le> y2 + h2))"

definition guillotine_inv :: "rat \<Rightarrow> rect list \<Rightarrow> placement list \<Rightarrow> bool" where
  "guillotine_inv ROLL_WIDTH free placed \<longleftrightarrow>
     list_all (inside ROLL_WIDTH) free
     \<and> list_all (inside ROLL_WIDTH) (map area_of placed)
     \<and> sorted_wrt apart free
     \<and> sorted_wrt apart (map area_of placed)
     \<and> list_all (\<lambda>r. list_all (apart r) (map area_of placed)) free"

definition below_sentinel :: "rect \<Rightarrow> bool" where
  "below_sentinel r =
     (case exact_rect r of None \<Rightarrow> False | Some (x, y, w, h) \<Rightarrow> y + h \<le> 10000)"

definition sentinel_inv :: "rect list \<Rightarrow> placement list \<Rightarrow> bool" where
  "sentinel_inv free placed \<longleftrightarrow>
     list_all below_sentinel free \<and> list_all below_sentinel (map area_of placed)"

text \<open>
  The search: the orders tried, the layouts of the passes that packed, the length of a
  layout, the earliest layout of smallest length, the update of the best layout by one
  pass that packed, and the caller's list after all passes.
\<close>

fun orders :: "(piece list \<Rightarrow> piece list) list \<Rightarrow> piece list \<Rightarrow> piece list list" where
  "orders [] pieces = []"
| "orders (shuffle # rest) pieces = shuffle pieces # orders rest (shuffle pieces)"

definition successes :: "rat \<Rightarrow> (piece list \<Rightarrow> piece list) list \<Rightarrow> piece list \<Rightarrow> placement list list" where
  "successes ROLL_WIDTH passes pieces =
     concat (map (\<lambda>order. case pack ROLL_WIDTH order of None \<Rightarrow> [] | Some layout \<Rightarrow> [layout])
       (orders passes pieces))"

definition layout_len :: "placement list \<Rightarrow> fl" where
  "layout_len layout = (case length_layout layout of Inl e \<Rightarrow> NaN | Inr l \<Rightarrow> l)"

definition earliest_shortest :: "placement list list \<Rightarrow> placement list option" where
  "earliest_shortest layouts =
     find (\<lambda>a. \<forall>b \<in> set layouts. xle (layout_len a) (layout_len b)) layouts"

definition permuting :: "(piece list \<Rightarrow> piece list) \<Rightarrow> bool" where
  "permuting shuffle \<longleftrightarrow> (\<forall>xs. mset (shuffle xs) = mset xs)"

definition take_pass ::
  "placement list option \<times> fl option \<Rightarrow> placement list \<Rightarrow> placement list option \<times> fl option" where
  "take_pass best layout =
     (if replaces (snd best) (layout_len layout) then (Some layout, Some (layout_len layout)) else best)"

definition after_passes :: "(piece list \<Rightarrow> piece list) list \<Rightarrow> piece list \<Rightarrow> piece list" where
  "after_passes passes pieces = foldl (\<lambda>xs shuffle. shuffle xs) pieces passes"

section \<open>Rounding is monotone\<close>

lemma two_powi_pos: "0 < (2::rat) powi k"
  by simp

lemma ilog2_bounds:
  assumes "0 < x"
  shows "2 powi ilog2 x \<le> x \<and> x < 2 powi (ilog2 x + 1)"
proof (cases "1 \<le> x")
  case True
  let ?m = "\<lfloor>x\<rfloor>"
  from True have m: "0 < ?m" by simp
  from bitlen_bounds [OF m] have lo: "2 ^ nat (bitlen ?m - 1) \<le> ?m" and hi: "?m < 2 ^ nat (bitlen ?m)"
    by simp_all
  from m have b1: "1 \<le> bitlen ?m"
    by (simp add: bitlen_alt_def)
  have "(2::rat) powi (bitlen ?m - 1) = of_int (2 ^ nat (bitlen ?m - 1))"
    using b1 by (simp add: power_int_nonneg_exp)
  also have "\<dots> \<le> of_int ?m"
    using lo by (simp only: of_int_le_iff)
  also have "\<dots> \<le> x" by simp
  finally have l: "2 powi (bitlen ?m - 1) \<le> x" .
  from hi have mb: "?m + 1 \<le> 2 ^ nat (bitlen ?m)" by simp
  have "x < of_int (?m + 1)"
    using floor_correct [of x] by simp
  also have "\<dots> \<le> of_int (2 ^ nat (bitlen ?m))"
    using mb by (simp only: of_int_le_iff)
  also have "\<dots> = 2 powi (bitlen ?m)"
    using b1 by (simp add: power_int_nonneg_exp)
  finally have h: "x < 2 powi (bitlen ?m - 1 + 1)" by simp
  from l h True show ?thesis by (simp add: ilog2_def)
next
  case False
  let ?y = "1 / x"
  let ?m = "\<lceil>?y\<rceil>"
  let ?c = "bitlen (?m - 1)"
  from False assms have y1: "1 < ?y" by simp
  then have m2: "2 \<le> ?m"
    by (simp add: le_ceiling_iff)
  then have m: "0 < ?m - 1" by simp
  from bitlen_bounds [OF m] have lo: "2 ^ nat (?c - 1) \<le> ?m - 1" and hi: "?m - 1 < 2 ^ nat ?c"
    by simp_all
  from m have c1: "1 \<le> ?c"
    by (simp add: bitlen_alt_def)
  from hi have mc: "?m \<le> 2 ^ nat ?c" by simp
  have "?y \<le> of_int ?m" by (rule le_of_int_ceiling)
  also have "\<dots> \<le> of_int (2 ^ nat ?c)"
    using mc by (simp only: of_int_le_iff)
  also have "\<dots> = 2 ^ nat ?c" by simp
  finally have "?y \<le> 2 ^ nat ?c" .
  then have "1 / 2 ^ nat ?c \<le> x"
    using assms by (simp add: field_simps)
  moreover have "(2::rat) powi (- ?c) = 1 / 2 ^ nat ?c"
    using c1 by (simp add: power_int_minus_divide power_int_nonneg_exp)
  ultimately have l: "2 powi (- ?c) \<le> x" by simp
  have "(2::rat) ^ nat (?c - 1) = of_int (2 ^ nat (?c - 1))" by simp
  also have "\<dots> \<le> of_int (?m - 1)"
    using lo by (simp only: of_int_le_iff)
  also have "\<dots> < ?y"
    using ceiling_correct [of ?y] by simp
  finally have "2 ^ nat (?c - 1) < ?y" .
  then have "x < 1 / 2 ^ nat (?c - 1)"
    using assms by (simp add: field_simps)
  moreover have "(2::rat) powi (- ?c + 1) = 1 / 2 ^ nat (?c - 1)"
  proof -
    have "(2::rat) powi (- ?c + 1) = 2 powi (- (?c - 1))" by simp
    also have "\<dots> = 1 / 2 powi (?c - 1)" by (rule power_int_minus_divide)
    also have "\<dots> = 1 / 2 ^ nat (?c - 1)"
      using c1 by (simp add: power_int_nonneg_exp)
    finally show ?thesis .
  qed
  ultimately have h: "x < 2 powi (- ?c + 1)" by simp
  from l h False show ?thesis by (simp add: ilog2_def)
qed

lemma ilog2_mono:
  assumes "0 < x" "x \<le> y"
  shows "ilog2 x \<le> ilog2 y"
proof (rule ccontr)
  assume "\<not> ilog2 x \<le> ilog2 y"
  then have "ilog2 y + 1 \<le> ilog2 x" by simp
  then have "(2::rat) powi (ilog2 y + 1) \<le> 2 powi ilog2 x"
    by (intro power_int_increasing) simp_all
  also have "\<dots> \<le> x" using ilog2_bounds [OF assms(1)] by simp
  also have "\<dots> \<le> y" by fact
  also have "\<dots> < 2 powi (ilog2 y + 1)"
    using ilog2_bounds [of y] assms by simp
  finally show False by simp
qed

lemma rhe_of_int: "rhe (of_int k) = k"
  by (simp add: rhe_def)

lemma rhe_bounds: "\<lfloor>z\<rfloor> \<le> rhe z \<and> rhe z \<le> \<lfloor>z\<rfloor> + 1"
  by (simp add: rhe_def Let_def)

lemma rhe_mono:
  assumes "a \<le> b"
  shows "rhe a \<le> rhe b"
proof (cases "\<lfloor>a\<rfloor> = \<lfloor>b\<rfloor>")
  case True
  with assms have "a - of_int \<lfloor>a\<rfloor> \<le> b - of_int \<lfloor>b\<rfloor>" by simp
  with True show ?thesis
    by (auto simp: rhe_def Let_def)
next
  case False
  with assms have "\<lfloor>a\<rfloor> < \<lfloor>b\<rfloor>"
    using floor_mono [OF assms] by simp
  then have "\<lfloor>a\<rfloor> + 1 \<le> \<lfloor>b\<rfloor>" by simp
  with rhe_bounds [of a] rhe_bounds [of b] show ?thesis by linarith
qed


lemma rd_0: "rd 0 = 0"
  by (simp add: rd_def)

lemma ulp_exp_minus: "ulp_exp (- x) = ulp_exp x"
  by (simp add: ulp_exp_def)

lemma rd_minus: "rd (- x) = - rd x"
  by (simp add: rd_def ulp_exp_minus)

lemma rd_pos_eq: "0 < x \<Longrightarrow> rd x = of_int (rhe (x / 2 powi ulp_exp x)) * 2 powi ulp_exp x"
  by (simp add: rd_def)

lemma rd_nonneg: "0 \<le> x \<Longrightarrow> 0 \<le> rd x"
proof (cases "x = 0")
  case True
  then show ?thesis by (simp add: rd_0)
next
  case False
  assume "0 \<le> x"
  with False have x: "0 < x" by simp
  then have "0 \<le> x / 2 powi ulp_exp x" by simp
  then have "0 \<le> \<lfloor>x / 2 powi ulp_exp x\<rfloor>" by simp
  with rhe_bounds [of "x / 2 powi ulp_exp x"] have "0 \<le> rhe (x / 2 powi ulp_exp x)"
    by linarith
  then show ?thesis
    by (simp add: rd_pos_eq [OF x])
qed

lemma two_powi_int:
  assumes "t \<le> k"
  shows "(2::rat) powi k = of_int (2 ^ nat (k - t)) * 2 powi t"
proof -
  have "(2::rat) powi k = 2 powi ((k - t) + t)" by simp
  also have "\<dots> = 2 powi (k - t) * 2 powi t"
    by (rule power_int_add) simp
  also have "2 powi (k - t) = (2::rat) ^ nat (k - t)"
    using assms by (simp add: power_int_nonneg_exp)
  finally show ?thesis by simp
qed

lemma rd_le_pow:
  assumes "0 < x" "x \<le> 2 powi k" "ulp_exp x \<le> k"
  shows "rd x \<le> 2 powi k"
proof -
  let ?t = "ulp_exp x"
  let ?N = "2 ^ nat (k - ?t) :: int"
  have k: "(2::rat) powi k = of_int ?N * 2 powi ?t"
    using assms(3) by (rule two_powi_int)
  from assms(2) have "x / 2 powi ?t \<le> of_int ?N"
    unfolding k by (simp add: field_simps)
  then have "rhe (x / 2 powi ?t) \<le> rhe (of_int ?N)"
    by (rule rhe_mono)
  then have "rhe (x / 2 powi ?t) \<le> ?N"
    by (simp only: rhe_of_int)
  then have "(of_int (rhe (x / 2 powi ?t)) :: rat) \<le> of_int ?N"
    by (simp only: of_int_le_iff)
  then have "of_int (rhe (x / 2 powi ?t)) * 2 powi ?t \<le> of_int ?N * (2::rat) powi ?t"
    by (intro mult_right_mono) simp_all
  then show ?thesis
    unfolding k rd_pos_eq [OF assms(1)] .
qed

lemma rd_ge_pow:
  assumes "0 < y" "2 powi k \<le> y" "ulp_exp y \<le> k"
  shows "2 powi k \<le> rd y"
proof -
  let ?t = "ulp_exp y"
  let ?N = "2 ^ nat (k - ?t) :: int"
  have k: "(2::rat) powi k = of_int ?N * 2 powi ?t"
    using assms(3) by (rule two_powi_int)
  from assms(2) have "of_int ?N \<le> y / 2 powi ?t"
    unfolding k by (simp add: field_simps)
  then have "rhe (of_int ?N) \<le> rhe (y / 2 powi ?t)"
    by (rule rhe_mono)
  then have "?N \<le> rhe (y / 2 powi ?t)"
    by (simp only: rhe_of_int)
  then have "(of_int ?N :: rat) \<le> of_int (rhe (y / 2 powi ?t))"
    by (simp only: of_int_le_iff)
  then have "of_int ?N * (2::rat) powi ?t \<le> of_int (rhe (y / 2 powi ?t)) * 2 powi ?t"
    by (intro mult_right_mono) simp_all
  then show ?thesis
    unfolding k rd_pos_eq [OF assms(1)] .
qed

lemma rd_mono_pos:
  assumes "0 < x" "x \<le> y"
  shows "rd x \<le> rd y"
proof -
  from assms have y: "0 < y" by simp
  have e: "ilog2 x \<le> ilog2 y"
    using assms y by (simp add: ilog2_mono)
  then have t: "ulp_exp x \<le> ulp_exp y"
    using assms y by (simp add: ulp_exp_def)
  show ?thesis
  proof (cases "ulp_exp x = ulp_exp y")
    case True
    from assms(2) have "x / 2 powi ulp_exp y \<le> y / 2 powi ulp_exp y"
      by (simp add: divide_right_mono)
    then have "rhe (x / 2 powi ulp_exp y) \<le> rhe (y / 2 powi ulp_exp y)"
      by (rule rhe_mono)
    then have "(of_int (rhe (x / 2 powi ulp_exp y)) :: rat) \<le> of_int (rhe (y / 2 powi ulp_exp y))"
      by (simp only: of_int_le_iff)
    then have "of_int (rhe (x / 2 powi ulp_exp y)) * 2 powi ulp_exp y
        \<le> of_int (rhe (y / 2 powi ulp_exp y)) * (2::rat) powi ulp_exp y"
      by (intro mult_right_mono) simp_all
    then show ?thesis
      unfolding rd_pos_eq [OF assms(1)] rd_pos_eq [OF y] True .
  next
    case False
    with t have lt: "ulp_exp x < ulp_exp y" by simp
    then have m: "max (ilog2 x) (- 1022) < max (ilog2 y) (- 1022)"
      using assms y by (simp add: ulp_exp_def)
    then have ey: "- 1022 < ilog2 y" and exy: "ilog2 x < ilog2 y"
      by auto
    from ey have ty: "ulp_exp y \<le> ilog2 y"
      using y by (simp add: ulp_exp_def)
    with lt have tx: "ulp_exp x \<le> ilog2 y" by simp
    have "x < 2 powi (ilog2 x + 1)"
      using ilog2_bounds [OF assms(1)] by simp
    also have "\<dots> \<le> 2 powi ilog2 y"
      using exy by (intro power_int_increasing) simp_all
    finally have "x \<le> 2 powi ilog2 y" by simp
    from rd_le_pow [OF assms(1) this tx] have "rd x \<le> 2 powi ilog2 y" .
    also have "2 powi ilog2 y \<le> y"
      using ilog2_bounds [OF y] by simp
    from rd_ge_pow [OF y this ty] have "2 powi ilog2 y \<le> rd y" .
    finally show ?thesis .
  qed
qed

lemma rd_mono:
  assumes "x \<le> y"
  shows "rd x \<le> rd y"
proof -
  consider "0 < x" | "x \<le> 0" "0 \<le> y" | "y < 0"
    using assms by linarith
  then show ?thesis
  proof cases
    case 1
    then show ?thesis using assms by (rule rd_mono_pos)
  next
    case 2
    from 2(1) have "0 \<le> rd (- x)"
      by (intro rd_nonneg) simp
    then have "rd x \<le> 0" by (simp add: rd_minus)
    also from 2(2) have "0 \<le> rd y" by (rule rd_nonneg)
    finally show ?thesis .
  next
    case 3
    then have "0 < - y" by simp
    moreover from assms have "- y \<le> - x" by simp
    ultimately have "rd (- y) \<le> rd (- x)" by (rule rd_mono_pos)
    then show ?thesis by (simp add: rd_minus)
  qed
qed


lemma maxd_pos: "0 < maxd"
  by (simp add: maxd_def)

lemma fl_of_double: "is_double x \<Longrightarrow> fl_of x = Fin x"
  by (auto simp: is_double_def fl_of_def Let_def)

lemma fl_of_0: "fl_of 0 = Fin 0"
  using maxd_pos by (simp add: fl_of_def rd_0)

lemma fl_of_not_NaN: "fl_of x \<noteq> NaN"
  by (simp add: fl_of_def Let_def)

lemma xle_fl_of_mono: "x \<le> y \<Longrightarrow> xle (fl_of x) (fl_of y)"
  using rd_mono [of x y] maxd_pos by (auto simp: fl_of_def Let_def)

lemma xle_trans: "xle a b \<Longrightarrow> xle b c \<Longrightarrow> xle a c"
  by (cases a; cases b; cases c) auto

lemma xle_not_NaN: "xle a b \<Longrightarrow> a \<noteq> NaN \<and> b \<noteq> NaN"
  by (cases a; cases b) auto

lemma xlt_not_NaN: "xlt a b \<Longrightarrow> a \<noteq> NaN \<and> b \<noteq> NaN"
  by (cases a; cases b) auto

lemma xle_key: "a \<noteq> NaN \<Longrightarrow> b \<noteq> NaN \<Longrightarrow> xle a b \<longleftrightarrow> key a \<le> key b"
  by (cases a; cases b) auto

lemma xlt_key: "a \<noteq> NaN \<Longrightarrow> b \<noteq> NaN \<Longrightarrow> xlt a b \<longleftrightarrow> key a < key b"
  by (cases a; cases b) auto

lemma fsub_Fin: "fsub (Fin x) (Fin y) = fl_of (x - y)"
  by (simp add: fsub_def)

lemma fsub_antimono:
  assumes "xle b1 b2" and "xle (Fin w) (fsub a b2)"
  shows "xle (Fin w) (fsub a b1)"
proof (cases a)
  case (Fin x)
  show ?thesis
  proof (cases b2)
    case b2: (Fin y2)
    show ?thesis
    proof (cases b1)
      case b1: (Fin y1)
      with assms(1) b2 have "x - y2 \<le> x - y1" by simp
      then have "xle (fl_of (x - y2)) (fl_of (x - y1))" by (rule xle_fl_of_mono)
      with assms(2) show ?thesis
        unfolding Fin b1 b2 fsub_Fin by (rule xle_trans)
    next
      case NInf
      then show ?thesis using Fin by (simp add: fsub_def)
    next
      case PInf
      with assms(1) b2 show ?thesis by simp
    next
      case NaN
      with assms(1) show ?thesis by simp
    qed
  next
    case PInf
    with assms(2) Fin show ?thesis by (simp add: fsub_def)
  next
    case NInf
    with assms(1) have "b1 = NInf" by (cases b1) auto
    with assms(2) NInf show ?thesis by simp
  next
    case NaN
    with assms(1) show ?thesis by (cases b1) auto
  qed
next
  case PInf
  from assms(2) PInf have "b2 \<noteq> PInf" "b2 \<noteq> NaN"
    by (cases b2; simp add: fsub_def)+
  with assms(1) have "b1 \<noteq> PInf" "b1 \<noteq> NaN"
    by (cases b1; cases b2; simp)+
  with PInf show ?thesis
    by (cases b1) (simp_all add: fsub_def)
next
  case NInf
  with assms(2) show ?thesis
    by (cases b2) (simp_all add: fsub_def)
next
  case NaN
  with assms(2) show ?thesis
    by (simp add: fsub_def)
qed

section \<open>Evaluating the arithmetic on numerals\<close>

lemma floor_rat_numeral: "\<lfloor>numeral a / numeral b :: rat\<rfloor> = numeral a div numeral b"
  by (metis floor_divide_of_int_eq of_int_numeral)

lemma ceiling_rat_numeral: "\<lceil>numeral a / numeral b :: rat\<rceil> = - (- numeral a div numeral b)"
  by (metis ceiling_def floor_divide_of_int_eq minus_divide_left of_int_minus of_int_numeral)

lemma bitlen_numeral: "bitlen (numeral k) = bitlen (numeral k div 2) + 1"
  by (subst compute_bitlen) simp

lemma bitlen_1: "bitlen 1 = 1"
  by (subst compute_bitlen) simp

lemma maxd_numeral:
  "maxd = 179769313486231570814527423731704356798070567525844996598917476803157260780028538760589558632766878171540458953514382464234321326889464182768467546703537516986049910576551282076245490090389328944075868508455133942304583236903222948165808559332123348274797826204144723168738177180919299881250404026184124858368"
  by (simp add: maxd_def)

lemmas fl_eval = rd_def ulp_exp_def ilog2_def rhe_def Let_def floor_rat_numeral ceiling_rat_numeral
  bitlen_numeral bitlen_1 maxd_numeral fl_of_def fsub_def is_double_def

section \<open>Tiling: results\<close>

lemma tile_loop_None:
  "tile_loop OVERLAP w roll ns = None \<longleftrightarrow> (\<forall>n \<in> set ns. \<not> tile_fits OVERLAP w roll n)"
  by (induction ns) (auto simp: tile_fits_def)

lemma tile_loop_first:
  "tile_fits OVERLAP w roll n \<Longrightarrow> \<forall>m \<in> set pre. \<not> tile_fits OVERLAP w roll m \<Longrightarrow>
   tile_loop OVERLAP w roll (pre @ n # post) = Some (strip_width OVERLAP w n, n)"
  by (induction pre) (auto simp: tile_fits_def strip_width_def)

lemma tile_loop_Some:
  "tile_loop OVERLAP w roll ns = Some (s, n) \<Longrightarrow>
   \<exists>pre post. ns = pre @ n # post \<and> (\<forall>m \<in> set pre. \<not> tile_fits OVERLAP w roll m)
     \<and> tile_fits OVERLAP w roll n \<and> s = strip_width OVERLAP w n"
proof (induction ns)
  case Nil
  then show ?case by simp
next
  case (Cons a ns)
  show ?case
  proof (cases "tile_fits OVERLAP w roll a")
    case True
    with Cons.prems have "n = a" "s = strip_width OVERLAP w a"
      by (auto simp: tile_fits_def strip_width_def)
    with True have "a # ns = [] @ n # ns \<and> (\<forall>m \<in> set []. \<not> tile_fits OVERLAP w roll m)
        \<and> tile_fits OVERLAP w roll n \<and> s = strip_width OVERLAP w n"
      by simp
    then show ?thesis by blast
  next
    case False
    with Cons.prems have "tile_loop OVERLAP w roll ns = Some (s, n)"
      by (simp add: tile_fits_def)
    from Cons.IH [OF this] obtain pre post where
      "ns = pre @ n # post" "\<forall>m \<in> set pre. \<not> tile_fits OVERLAP w roll m"
      "tile_fits OVERLAP w roll n" "s = strip_width OVERLAP w n"
      by blast
    with False have "a # ns = (a # pre) @ n # post
        \<and> (\<forall>m \<in> set (a # pre). \<not> tile_fits OVERLAP w roll m)
        \<and> tile_fits OVERLAP w roll n \<and> s = strip_width OVERLAP w n"
      by simp
    then show ?thesis by blast
  qed
qed

lemma candidates_split:
  assumes "n \<in> {1..5::int}"
  shows "[1, 2, 3, 4, 5] = filter (\<lambda>m. m < n) [1, 2, 3, 4, 5] @ n # filter (\<lambda>m. n < m) [1, 2, 3, 4, 5]"
proof -
  from assms have "n = 1 \<or> n = 2 \<or> n = 3 \<or> n = 4 \<or> n = 5"
    by auto
  then show ?thesis
    by auto
qed

lemma tile_first_count:
  assumes "is_double w" "is_double roll" "w \<le> roll"
  shows "tile_width_only OVERLAP w roll = Some (Fin w, 1)"
proof -
  have "fsub (fmul (Fin 1) (Fin roll)) (fmul (Fin 0) (Fin OVERLAP)) = Fin roll"
    using assms(2) by (simp add: fsub_def fl_of_0 fl_of_double)
  moreover have "fdiv (fadd (Fin w) (fmul (Fin 0) (Fin OVERLAP))) 1 = Fin w"
    using assms(1) by (simp add: fl_of_0 fl_of_double)
  ultimately show ?thesis
    using assms(3) by (simp add: tile_width_only_def)
qed

text \<open>
  C1 (as amended). \<open>tile_width_only\<close> returns, for the smallest \<open>n\<close> in 1..5 that passes
  the test \<open>w \<le> n * roll - (n - 1) * overlap\<close> as the source computes it, each product
  and the difference rounded to a float, the pair of the strip width
  \<open>(w + (n - 1) * overlap) / n\<close>, rounded likewise at each operation, and \<open>n\<close>; when no
  \<open>n\<close> in 1..5 passes the test it returns \<open>None\<close>; and for floats \<open>w \<le> roll\<close> it returns
  \<open>(w, 1)\<close>.
\<close>

theorem tile_width_only_smallest:
  "(n \<in> {1..5} \<and> tile_fits OVERLAP w roll n \<and> (\<forall>m \<in> {1..<n}. \<not> tile_fits OVERLAP w roll m)
      \<longrightarrow> tile_width_only OVERLAP w roll
          = Some (fdiv (fadd (Fin w) (fmul (Fin (of_int (n - 1))) (Fin OVERLAP))) n, n))
   \<and> ((\<forall>m \<in> {1..5}. \<not> tile_fits OVERLAP w roll m) \<longrightarrow> tile_width_only OVERLAP w roll = None)
   \<and> (is_double w \<and> is_double roll \<and> w \<le> roll \<longrightarrow> tile_width_only OVERLAP w roll = Some (Fin w, 1))"
proof (intro conjI impI)
  assume a: "n \<in> {1..5} \<and> tile_fits OVERLAP w roll n
    \<and> (\<forall>m \<in> {1..<n}. \<not> tile_fits OVERLAP w roll m)"
  let ?pre = "filter (\<lambda>m. m < n) [1, 2, 3, 4, 5]"
  let ?post = "filter (\<lambda>m. n < m) [1, 2, 3, 4, 5]"
  from a have split: "[1, 2, 3, 4, 5] = ?pre @ n # ?post"
    using candidates_split by blast
  from a have "\<forall>m \<in> set ?pre. \<not> tile_fits OVERLAP w roll m"
    by auto
  with a have "tile_loop OVERLAP w roll (?pre @ n # ?post) = Some (strip_width OVERLAP w n, n)"
    using tile_loop_first by blast
  moreover have "tile_width_only OVERLAP w roll = tile_loop OVERLAP w roll (?pre @ n # ?post)"
    by (simp only: tile_width_only_def split [symmetric])
  ultimately show "tile_width_only OVERLAP w roll
      = Some (fdiv (fadd (Fin w) (fmul (Fin (of_int (n - 1))) (Fin OVERLAP))) n, n)"
    by (simp only: strip_width_def)
next
  assume "\<forall>m \<in> {1..5}. \<not> tile_fits OVERLAP w roll m"
  then have "\<forall>m \<in> set [1, 2, 3, 4, 5]. \<not> tile_fits OVERLAP w roll m"
    by simp
  then show "tile_width_only OVERLAP w roll = None"
    unfolding tile_width_only_def tile_loop_None by blast
next
  assume "is_double w \<and> is_double roll \<and> w \<le> roll"
  then show "tile_width_only OVERLAP w roll = Some (Fin w, 1)"
    using tile_first_count by blast
qed

theorem tile_width_only_smallest_witness:
  "tile_width_only 1 300 137 = Some (Fin (rd (302 / 3)), 3)
   \<and> tile_width_only 1 1000 137 = None
   \<and> tile_width_only 1 100 137 = Some (Fin 100, 1)"
proof -
  have f3: "(3::int) \<in> {1..5} \<and> tile_fits 1 300 137 3 \<and> (\<forall>m \<in> {1..<3::int}. \<not> tile_fits 1 300 137 m)"
  proof -
    have "{1..<3::int} = {1, 2}" by auto
    moreover have "tile_fits 1 300 137 3" "\<not> tile_fits 1 300 137 1" "\<not> tile_fits 1 300 137 2"
      by (simp_all add: tile_fits_def fl_eval)
    ultimately show ?thesis by simp
  qed
  have none: "\<forall>m \<in> {1..5::int}. \<not> tile_fits 1 1000 137 m"
  proof -
    have "{1..5::int} = {1, 2, 3, 4, 5}" by auto
    moreover have "\<not> tile_fits 1 1000 137 1" "\<not> tile_fits 1 1000 137 2" "\<not> tile_fits 1 1000 137 3"
      "\<not> tile_fits 1 1000 137 4" "\<not> tile_fits 1 1000 137 5"
      by (simp_all add: tile_fits_def fl_eval)
    ultimately show ?thesis by simp
  qed
  have le: "is_double 100 \<and> is_double 137 \<and> (100::rat) \<le> 137"
    by (simp add: fl_eval)
  have s: "fdiv (fadd (Fin 300) (fmul (Fin (of_int (3 - 1))) (Fin 1))) 3 = Fin (rd (302 / 3))"
    by (simp add: fl_eval)
  from tile_width_only_smallest [of 3 1 300 137] f3
  have "tile_width_only 1 300 137 = Some (Fin (rd (302 / 3)), 3)"
    unfolding s by blast
  moreover from tile_width_only_smallest [of 3 1 1000 137] none
  have "tile_width_only 1 1000 137 = None" by blast
  moreover from tile_width_only_smallest [of 3 1 100 137] le
  have "tile_width_only 1 100 137 = Some (Fin 100, 1)" by blast
  ultimately show ?thesis by blast
qed

text \<open>
  The claim read in exact arithmetic does not hold of the source. For the floats nearest
  to 684.6, 137 and 0.1, no \<open>n\<close> in 1..5 satisfies \<open>w \<le> n * roll - (n - 1) * overlap\<close>,
  and the source returns \<open>(137, 5)\<close>: the rounded difference \<open>5 * 137 - 4 * 0.1\<close> is the
  float 684.6.
\<close>

theorem tile_width_only_smallest_counterexample:
  "tile_width_only (rd (1 / 10)) (rd (6846 / 10)) 137 = Some (Fin 137, 5)
   \<and> \<not> rd (6846 / 10) \<le> 1 * 137 - 0 * rd (1 / 10)
   \<and> \<not> rd (6846 / 10) \<le> 2 * 137 - 1 * rd (1 / 10)
   \<and> \<not> rd (6846 / 10) \<le> 3 * 137 - 2 * rd (1 / 10)
   \<and> \<not> rd (6846 / 10) \<le> 4 * 137 - 3 * rd (1 / 10)
   \<and> \<not> rd (6846 / 10) \<le> 5 * 137 - 4 * rd (1 / 10)"
  by (simp add: tile_width_only_def fl_eval)

text \<open>
  C8. With \<open>w\<close> and \<open>roll\<close> fixed, the chosen tile count is monotone in the overlap:
  if \<open>n1\<close> is chosen at overlap \<open>o1\<close> and \<open>n2\<close> at \<open>o2\<close> with \<open>o1 \<le> o2\<close>, then
  \<open>n1 \<le> n2\<close>.
\<close>

theorem tile_count_mono_overlap:
  assumes "o1 \<le> o2"
    and "tile_width_only o1 w roll = Some (s1, n1)"
    and "tile_width_only o2 w roll = Some (s2, n2)"
  shows "n1 \<le> n2"
proof (rule ccontr)
  assume "\<not> n1 \<le> n2"
  then have lt: "n2 < n1" by simp
  from assms(2) obtain pre1 post1 where
    s1: "[1, 2, 3, 4, 5] = pre1 @ n1 # post1" "\<forall>m \<in> set pre1. \<not> tile_fits o1 w roll m"
    unfolding tile_width_only_def using tile_loop_Some by blast
  from assms(3) obtain pre2 post2 where
    s2: "[1, 2, 3, 4, 5] = pre2 @ n2 # post2" "tile_fits o2 w roll n2"
    unfolding tile_width_only_def using tile_loop_Some by blast
  have "sorted_wrt (<) [1, 2, 3, 4, 5::int]"
    by simp
  then have srt: "sorted_wrt (<) (pre1 @ n1 # post1)"
    by (simp only: s1(1))
  have "n2 \<in> set (pre2 @ n2 # post2)"
    by simp
  then have mem: "n2 \<in> set [1, 2, 3, 4, 5]"
    by (simp only: s2(1) [symmetric])
  then have "n2 \<in> set (pre1 @ n1 # post1)"
    by (simp only: s1(1))
  with srt lt have in_pre: "n2 \<in> set pre1"
    by (auto simp: sorted_wrt_append)
  from mem have "1 \<le> n2" by auto
  then have "(0::rat) \<le> of_int (n2 - 1)" by simp
  with assms(1) have "of_int (n2 - 1) * o1 \<le> of_int (n2 - 1) * o2"
    using mult_left_mono [of o1 o2 "of_int (n2 - 1)"] by simp
  then have "xle (fmul (Fin (of_int (n2 - 1))) (Fin o1)) (fmul (Fin (of_int (n2 - 1))) (Fin o2))"
    using xle_fl_of_mono by simp
  then have "tile_fits o1 w roll n2"
    using s2(2) unfolding tile_fits_def by (rule fsub_antimono)
  with in_pre s1(2) show False by blast
qed

theorem tile_count_mono_overlap_witness:
  "(1::rat) \<le> 100 \<and> tile_width_only 1 200 137 = Some (Fin (201 / 2), 2)
   \<and> tile_width_only 100 200 137 = Some (Fin (rd (400 / 3)), 3) \<and> (2::int) \<le> 3"
proof -
  have a: "(1::rat) \<le> 100" by simp
  have b: "tile_width_only 1 200 137 = Some (Fin (201 / 2), 2)"
    by (simp add: tile_width_only_def fl_eval)
  have c: "tile_width_only 100 200 137 = Some (Fin (rd (400 / 3)), 3)"
    by (simp add: tile_width_only_def fl_eval)
  from tile_count_mono_overlap [OF a b c] a b c show ?thesis by blast
qed

section \<open>Expansion of the demands\<close>

lemma concat_replicate_replicate:
  "concat (replicate a (replicate b x)) = replicate (a * b) x"
  by (induction a) (auto simp: replicate_add)

lemma tile_width_only_count:
  "tile_width_only OVERLAP w roll = Some (s, n) \<Longrightarrow> 1 \<le> n"
  by (auto simp: tile_width_only_def split: if_splits)

lemma expand_loop_eq:
  "expand_loop ROLL_WIDTH OVERLAP jobs acc =
     (if \<exists>(i, w, h, q) \<in> set jobs. tile_width_only OVERLAP w ROLL_WIDTH = None then None
      else Some (acc @ concat (map (job_pieces ROLL_WIDTH OVERLAP) jobs)))"
proof (induction jobs arbitrary: acc)
  case Nil
  then show ?case by simp
next
  case (Cons j jobs)
  obtain i w h q where j: "j = (i, w, h, q)"
    by (cases j) auto
  show ?case
  proof (cases "tile_width_only OVERLAP w ROLL_WIDTH")
    case None
    with j show ?thesis by simp
  next
    case (Some r)
    obtain s n where r: "r = (s, n)" by (cases r) auto
    from Some r have "1 \<le> n" using tile_width_only_count by blast
    then have "nat (q * n) = nat q * nat n"
      by (metis mult.commute nat_mult_distrib zero_le_one order_trans)
    with Some r j have "job_pieces ROLL_WIDTH OVERLAP j
        = concat (replicate (nat q) (replicate (nat n) \<lparr>pid = i, orientations = [(s, Fin h), (Fin h, s)]\<rparr>))"
      by (simp add: job_pieces_def concat_replicate_replicate)
    with Some r j show ?thesis
      by (simp add: Cons.IH)
  qed
qed

text \<open>
  C6. \<open>expand\<close> fails as a whole exactly when some demand's width cannot be tiled;
  otherwise its result is, demand by demand, \<open>quantity * tileCount\<close> copies of the piece
  with the two orientation options \<open>(stripWidth, height)\<close> and \<open>(height, stripWidth)\<close>.
\<close>

theorem expand_all_or_nothing:
  "(expand ROLL_WIDTH OVERLAP jobs = None
      \<longleftrightarrow> (\<exists>(i, w, h, q) \<in> set jobs. tile_width_only OVERLAP w ROLL_WIDTH = None))
   \<and> (\<forall>pieces. expand ROLL_WIDTH OVERLAP jobs = Some pieces
        \<longrightarrow> pieces = concat (map (job_pieces ROLL_WIDTH OVERLAP) jobs))
   \<and> (\<forall>i w h q s n. tile_width_only OVERLAP w ROLL_WIDTH = Some (s, n)
        \<longrightarrow> job_pieces ROLL_WIDTH OVERLAP (i, w, h, q)
            = replicate (nat (q * n)) \<lparr>pid = i, orientations = [(s, Fin h), (Fin h, s)]\<rparr>)"
  by (simp add: expand_def expand_loop_eq job_pieces_def)

theorem expand_all_or_nothing_witness:
  "expand 137 1 [(1, 300, 50, 2), (2, 50, 60, 1)]
     = Some (concat (map (job_pieces 137 1) [(1, 300, 50, 2), (2, 50, 60, 1)]))
   \<and> job_pieces 137 1 (1, 300, 50, 2)
     = replicate (nat (2 * 3))
         \<lparr>pid = 1, orientations = [(Fin (rd (302 / 3)), Fin 50), (Fin 50, Fin (rd (302 / 3)))]\<rparr>
   \<and> expand 137 1 [(1, 300, 50, 2), (2, 1000, 60, 1)] = None"
proof -
  have t1: "tile_width_only 1 300 137 = Some (Fin (rd (302 / 3)), 3)"
    by (simp add: tile_width_only_def fl_eval)
  have t2: "tile_width_only 1 50 137 = Some (Fin 50, 1)"
    by (simp add: tile_width_only_def fl_eval)
  have t3: "tile_width_only 1 1000 137 = None"
    by (simp add: tile_width_only_def fl_eval)
  from t1 t2 have "expand 137 1 [(1, 300, 50, 2), (2, 50, 60, 1)] \<noteq> None"
    using expand_all_or_nothing [of 137 1 "[(1, 300, 50, 2), (2, 50, 60, 1)]"] by simp
  then have a: "expand 137 1 [(1, 300, 50, 2), (2, 50, 60, 1)]
     = Some (concat (map (job_pieces 137 1) [(1, 300, 50, 2), (2, 50, 60, 1)]))"
    using expand_all_or_nothing [of 137 1 "[(1, 300, 50, 2), (2, 50, 60, 1)]"] by blast
  from t1 have b: "job_pieces 137 1 (1, 300, 50, 2)
     = replicate (nat (2 * 3))
         \<lparr>pid = 1, orientations = [(Fin (rd (302 / 3)), Fin 50), (Fin 50, Fin (rd (302 / 3)))]\<rparr>"
    using expand_all_or_nothing [of 137 1 "[]"] by blast
  from t3 have c: "expand 137 1 [(1, 300, 50, 2), (2, 1000, 60, 1)] = None"
    using expand_all_or_nothing [of 137 1 "[(1, 300, 50, 2), (2, 1000, 60, 1)]"] by simp
  from a b c show ?thesis by blast
qed

section \<open>The packer's selection rule\<close>

lemma fst_cand_of: "fst (cand_of c) = leftover c"
  by (auto simp: cand_of_def leftover_def split: prod.splits)

lemma try_orientation_keep:
  "try_orientation f best ori = (if fits f ori then keep_better best (cand_of (f, ori)) else best)"
  by (auto simp: try_orientation_def fits_def keep_better_def cand_of_def Let_def split: prod.splits option.splits)

lemma scan_free_keep:
  "scan_free oris best f = foldl keep_better best (map cand_of (map (\<lambda>ori. (f, ori)) (filter (fits f) oris)))"
  unfolding scan_free_def
  by (induction oris arbitrary: best) (simp_all add: try_orientation_keep)

lemma foldl_scan_free:
  "foldl (scan_free oris) best free = foldl keep_better best (map cand_of (fitting_pairs free oris))"
  by (induction free arbitrary: best) (simp_all add: fitting_pairs_def scan_free_keep)

lemma find_best_fold:
  "find_best free oris = foldl keep_better None (map cand_of (fitting_pairs free oris))"
  by (simp add: find_best_def foldl_scan_free)

text \<open>Whatever the leftovers, the pair kept is one of the fitting pairs, and there is one unless none fits.\<close>

lemma foldl_keep_better_mem:
  "foldl keep_better b (map cand_of cs) = Some r \<Longrightarrow> b = Some r \<or> (\<exists>c \<in> set cs. r = cand_of c)"
proof (induction cs arbitrary: b)
  case Nil
  then show ?case by simp
next
  case (Cons c cs)
  from Cons.prems have "foldl keep_better (keep_better b (cand_of c)) (map cand_of cs) = Some r"
    by simp
  from Cons.IH [OF this] have "keep_better b (cand_of c) = Some r \<or> (\<exists>c \<in> set cs. r = cand_of c)" .
  then show ?case
    by (auto simp: keep_better_def split: option.splits if_splits)
qed




lemma find_best_Some:
  "find_best free oris = Some r \<Longrightarrow> \<exists>c \<in> set (fitting_pairs free oris). r = cand_of c"
  using foldl_keep_better_mem [of None "fitting_pairs free oris" r] by (simp add: find_best_fold)

lemma set_fitting_pairs:
  "set (fitting_pairs free oris) = {(f, ori). f \<in> set free \<and> ori \<in> set oris \<and> fits f ori}"
  by (auto simp: fitting_pairs_def)

lemma place_cand_of:
  "place free placed p (cand_of ((fx, fy, fw, fh), (w, h)))
     = (remove1 (fx, fy, fw, fh) free @ remainders (fx, fy, fw, fh) (w, h),
        placed @ [(pid p, fx, fy, w, h)])"
  by (simp add: place_def cand_of_def remainders_def)

text \<open>When no leftover is NaN, the comparisons are those of a linear order.\<close>

lemma foldl_keep_better_Some:
  assumes "\<forall>c \<in> set (b # cs). leftover c \<noteq> NaN"
  shows "foldl keep_better (Some (cand_of b)) (map cand_of cs)
     = map_option cand_of (find (\<lambda>c. \<forall>d \<in> set (b # cs). xle (leftover c) (leftover d)) (b # cs))"
proof -
  let ?k = "\<lambda>c. key (leftover c)"
  have fold: "foldl keep_better (Some (cand_of b)) (map cand_of cs)
     = map_option cand_of (find (\<lambda>c. \<forall>d \<in> set (b # cs). ?k c \<le> ?k d) (b # cs))"
    using assms
  proof (induction cs arbitrary: b)
    case Nil
    then show ?case by simp
  next
    case (Cons c cs)
    from Cons.prems have nb: "\<forall>c \<in> set (b # cs). leftover c \<noteq> NaN"
      and nc: "\<forall>d \<in> set (c # cs). leftover d \<noteq> NaN"
      and b: "leftover b \<noteq> NaN" and c: "leftover c \<noteq> NaN"
      by simp_all
    have lt: "xlt (fst (cand_of c)) (fst (cand_of b)) \<longleftrightarrow> ?k c < ?k b"
      using b c by (simp add: fst_cand_of xlt_key)
    show ?case
    proof (cases "?k c < ?k b")
      case True
      then have "foldl keep_better (Some (cand_of b)) (map cand_of (c # cs))
          = foldl keep_better (Some (cand_of c)) (map cand_of cs)"
        using lt by (simp add: keep_better_def)
      also have "\<dots> = map_option cand_of (find (\<lambda>x. \<forall>d \<in> set (c # cs). ?k x \<le> ?k d) (c # cs))"
        using nc by (rule Cons.IH)
      also have "find (\<lambda>x. \<forall>d \<in> set (c # cs). ?k x \<le> ?k d) (c # cs)
          = find (\<lambda>x. \<forall>d \<in> set (b # c # cs). ?k x \<le> ?k d) (c # cs)"
        using True by (intro find_cong) auto
      also have "\<dots> = find (\<lambda>x. \<forall>d \<in> set (b # c # cs). ?k x \<le> ?k d) (b # c # cs)"
        using True by auto
      finally show ?thesis .
    next
      case False
      then have "foldl keep_better (Some (cand_of b)) (map cand_of (c # cs))
          = foldl keep_better (Some (cand_of b)) (map cand_of cs)"
        using lt by (simp add: keep_better_def)
      also have "\<dots> = map_option cand_of (find (\<lambda>x. \<forall>d \<in> set (b # cs). ?k x \<le> ?k d) (b # cs))"
        using nb by (rule Cons.IH)
      also have "find (\<lambda>x. \<forall>d \<in> set (b # cs). ?k x \<le> ?k d) (b # cs)
          = find (\<lambda>x. \<forall>d \<in> set (b # c # cs). ?k x \<le> ?k d) (b # cs)"
        using False by (intro find_cong) auto
      also have "\<dots> = find (\<lambda>x. \<forall>d \<in> set (b # c # cs). ?k x \<le> ?k d) (b # c # cs)"
        using False by auto
      finally show ?thesis .
    qed
  qed
  have "find (\<lambda>c. \<forall>d \<in> set (b # cs). ?k c \<le> ?k d) (b # cs)
      = find (\<lambda>c. \<forall>d \<in> set (b # cs). xle (leftover c) (leftover d)) (b # cs)"
    using assms by (intro find_cong) (auto simp: xle_key)
  with fold show ?thesis by simp
qed

lemma find_best_select:
  assumes "\<forall>c \<in> set (fitting_pairs free oris). leftover c \<noteq> NaN"
  shows "find_best free oris = map_option cand_of (select_pair free oris)"
proof (cases "fitting_pairs free oris")
  case Nil
  then show ?thesis
    by (simp add: find_best_fold select_pair_def)
next
  case (Cons b cs)
  have "find_best free oris = foldl keep_better (Some (cand_of b)) (map cand_of cs)"
    by (simp add: find_best_fold Cons keep_better_def)
  also have "\<dots> = map_option cand_of (find (\<lambda>c. \<forall>d \<in> set (b # cs). xle (leftover c) (leftover d)) (b # cs))"
    using assms unfolding Cons by (rule foldl_keep_better_Some)
  also have "\<dots> = map_option cand_of (select_pair free oris)"
    by (simp only: select_pair_def Let_def Cons)
  finally show ?thesis .
qed

lemma least_leftover_exists:
  assumes "cs \<noteq> []" and "\<forall>c \<in> set cs. leftover c \<noteq> NaN"
  shows "\<exists>c \<in> set cs. \<forall>d \<in> set cs. xle (leftover c) (leftover d)"
proof -
  let ?k = "\<lambda>c. key (leftover c)"
  from assms(1) have "arg_min_list ?k cs \<in> set cs"
    by (rule arg_min_list_in)
  moreover have "\<forall>d \<in> set cs. ?k (arg_min_list ?k cs) \<le> ?k d"
  proof
    fix d assume "d \<in> set cs"
    then have "Min (?k ` set cs) \<le> ?k d" by (intro Min_le) simp_all
    then show "?k (arg_min_list ?k cs) \<le> ?k d"
      using f_arg_min_list_f [OF assms(1), of ?k] by simp
  qed
  ultimately have "\<exists>c \<in> set cs. \<forall>d \<in> set cs. ?k c \<le> ?k d" by blast
  then show ?thesis
    using assms(2) by (auto simp: xle_key)
qed

lemma select_pair_None:
  assumes "\<forall>c \<in> set (fitting_pairs free oris). leftover c \<noteq> NaN"
  shows "select_pair free oris = None \<longleftrightarrow> fitting_pairs free oris = []"
proof
  assume n: "select_pair free oris = None"
  show "fitting_pairs free oris = []"
  proof (rule ccontr)
    assume "fitting_pairs free oris \<noteq> []"
    from least_leftover_exists [OF this assms] obtain c where
      "c \<in> set (fitting_pairs free oris)"
      "\<forall>d \<in> set (fitting_pairs free oris). xle (leftover c) (leftover d)"
      by blast
    moreover from n have "\<not> (\<exists>c. c \<in> set (fitting_pairs free oris)
        \<and> (\<forall>d \<in> set (fitting_pairs free oris). xle (leftover c) (leftover d)))"
      unfolding select_pair_def Let_def find_None_iff by blast
    ultimately show False by blast
  qed
next
  assume "fitting_pairs free oris = []"
  then show "select_pair free oris = None"
    by (simp add: select_pair_def)
qed

lemma select_pair_Some:
  assumes "select_pair free oris = Some c"
  shows "\<exists>pre post. fitting_pairs free oris = pre @ c # post
     \<and> (\<forall>d \<in> set pre. \<not> xle (leftover d) (leftover c))
     \<and> (\<forall>d \<in> set post. xle (leftover c) (leftover d))"
proof -
  let ?cs = "fitting_pairs free oris"
  let ?P = "\<lambda>c. \<forall>d \<in> set ?cs. xle (leftover c) (leftover d)"
  from assms have "find ?P ?cs = Some c"
    by (simp add: select_pair_def Let_def)
  then obtain i where i: "i < length ?cs" "?P (?cs ! i)" "c = ?cs ! i" "\<forall>j < i. \<not> ?P (?cs ! j)"
    unfolding find_Some_iff by blast
  have split: "?cs = take i ?cs @ c # drop (Suc i) ?cs"
    using i(1, 3) by (simp add: id_take_nth_drop)
  have pre: "\<forall>d \<in> set (take i ?cs). \<not> xle (leftover d) (leftover c)"
  proof
    fix d assume "d \<in> set (take i ?cs)"
    then obtain j where j: "j < i" "d = ?cs ! j"
      using i(1) by (auto simp: in_set_conv_nth)
    with i(4) have "\<not> ?P d" by simp
    then obtain e where e: "e \<in> set ?cs" "\<not> xle (leftover d) (leftover e)"
      by auto
    from i(2, 3) e(1) have ce: "xle (leftover c) (leftover e)" by simp
    show "\<not> xle (leftover d) (leftover c)"
    proof
      assume "xle (leftover d) (leftover c)"
      then have "xle (leftover d) (leftover e)" using ce by (rule xle_trans)
      with e(2) show False by simp
    qed
  qed
  have post: "\<forall>d \<in> set (drop (Suc i) ?cs). xle (leftover c) (leftover d)"
    using i(2, 3) by (auto dest: in_set_dropD)
  from split pre post show ?thesis by blast
qed

lemma pack_step_select:
  assumes "\<forall>c \<in> set (fitting_pairs free (orientations p)). leftover c \<noteq> NaN"
  shows "pack_step free placed p =
     (case select_pair free (orientations p) of
        None \<Rightarrow> None
      | Some ((fx, fy, fw, fh), (w, h)) \<Rightarrow>
          Some (remove1 (fx, fy, fw, fh) free @ remainders (fx, fy, fw, fh) (w, h),
                placed @ [(pid p, fx, fy, w, h)]))"
  by (simp add: pack_step_def find_best_select [OF assms] place_cand_of split: option.splits prod.splits)

lemma not_xle_xlt: "a \<noteq> NaN \<Longrightarrow> b \<noteq> NaN \<Longrightarrow> \<not> xle a b \<longleftrightarrow> xlt b a"
  by (cases a; cases b) auto

lemmas pack_eval = pack_def pack_step_def find_best_def scan_free_def try_orientation_def place_def
  positive_dims_def length_layout_def pymax_def fl_eval

text \<open>
  C2 (as amended). With every sum, difference and product rounded to a float as the
  source computes it, and provided no leftover area of a fitting pair is NaN: for each
  piece, \<open>pack\<close> takes, among the pairs of a free rectangle and an orientation in which
  the piece fits (free rectangles in list order, orientations in list order within
  each), the first pair of smallest leftover area; it removes that free rectangle,
  places the piece at its origin, and appends the right remainder
  \<open>(x + w, y, fw - w, h)\<close> and the bottom remainder \<open>(x, y + h, fw, fh - h)\<close>, each only when
  both of its dimensions are positive. With no fitting pair the packing fails.
\<close>

theorem pack_selects_least_waste:
  assumes "\<forall>c \<in> set (fitting_pairs free (orientations p)). leftover c \<noteq> NaN"
  shows "pack_loop free placed (p # ps) =
     (case select_pair free (orientations p) of
        None \<Rightarrow> None
      | Some ((fx, fy, fw, fh), (w, h)) \<Rightarrow>
          pack_loop (remove1 (fx, fy, fw, fh) free @ remainders (fx, fy, fw, fh) (w, h))
            (placed @ [(pid p, fx, fy, w, h)]) ps)
   \<and> set (fitting_pairs free (orientations p))
       = {(f, ori). f \<in> set free \<and> ori \<in> set (orientations p) \<and> fits f ori}
   \<and> (select_pair free (orientations p) = None \<longleftrightarrow> fitting_pairs free (orientations p) = [])
   \<and> (\<forall>c. select_pair free (orientations p) = Some c \<longrightarrow>
        (\<exists>pre post. fitting_pairs free (orientations p) = pre @ c # post
           \<and> (\<forall>d \<in> set pre. xlt (leftover c) (leftover d))
           \<and> (\<forall>d \<in> set post. xle (leftover c) (leftover d))))"
proof (intro conjI allI impI)
  show "pack_loop free placed (p # ps) =
     (case select_pair free (orientations p) of
        None \<Rightarrow> None
      | Some ((fx, fy, fw, fh), (w, h)) \<Rightarrow>
          pack_loop (remove1 (fx, fy, fw, fh) free @ remainders (fx, fy, fw, fh) (w, h))
            (placed @ [(pid p, fx, fy, w, h)]) ps)"
    by (simp add: pack_step_select [OF assms] split: option.splits prod.splits)
next
  show "set (fitting_pairs free (orientations p))
       = {(f, ori). f \<in> set free \<and> ori \<in> set (orientations p) \<and> fits f ori}"
    by (rule set_fitting_pairs)
next
  show "select_pair free (orientations p) = None \<longleftrightarrow> fitting_pairs free (orientations p) = []"
    using assms by (rule select_pair_None)
next
  fix c assume "select_pair free (orientations p) = Some c"
  from select_pair_Some [OF this] obtain pre post where
    s: "fitting_pairs free (orientations p) = pre @ c # post"
    and pre: "\<forall>d \<in> set pre. \<not> xle (leftover d) (leftover c)"
    and post: "\<forall>d \<in> set post. xle (leftover c) (leftover d)"
    by blast
  have "\<forall>d \<in> set pre. xlt (leftover c) (leftover d)"
  proof
    fix d assume d: "d \<in> set pre"
    with s assms have n: "leftover d \<noteq> NaN" "leftover c \<noteq> NaN" by simp_all
    from pre d have "\<not> xle (leftover d) (leftover c)" by blast
    then show "xlt (leftover c) (leftover d)"
      using not_xle_xlt [OF n] by blast
  qed
  with s post show "\<exists>pre post. fitting_pairs free (orientations p) = pre @ c # post
           \<and> (\<forall>d \<in> set pre. xlt (leftover c) (leftover d))
           \<and> (\<forall>d \<in> set post. xle (leftover c) (leftover d))"
    by blast
qed

theorem pack_selects_least_waste_witness:
  "pack_loop [(Fin 50, Fin 0, Fin 87, Fin 60), (Fin 0, Fin 60, Fin 137, Fin 9940)]
      [(1, Fin 0, Fin 0, Fin 50, Fin 60)]
      [\<lparr>pid = 2, orientations = [(Fin 30, Fin 80), (Fin 80, Fin 30)]\<rparr>]
     = Some ([(Fin 0, Fin 60, Fin 137, Fin 9940), (Fin 130, Fin 0, Fin 7, Fin 30),
              (Fin 50, Fin 30, Fin 87, Fin 30)],
             [(1, Fin 0, Fin 0, Fin 50, Fin 60), (2, Fin 50, Fin 0, Fin 80, Fin 30)])
   \<and> fitting_pairs [(Fin 50, Fin 0, Fin 87, Fin 60), (Fin 0, Fin 60, Fin 137, Fin 9940)]
        [(Fin 30, Fin 80), (Fin 80, Fin 30)]
     = [((Fin 50, Fin 0, Fin 87, Fin 60), (Fin 80, Fin 30)),
        ((Fin 0, Fin 60, Fin 137, Fin 9940), (Fin 30, Fin 80)),
        ((Fin 0, Fin 60, Fin 137, Fin 9940), (Fin 80, Fin 30))]"
proof -
  let ?free = "[(Fin 50, Fin 0, Fin 87, Fin 60), (Fin 0, Fin 60, Fin 137, Fin 9940)] :: rect list"
  let ?p = "\<lparr>pid = 2, orientations = [(Fin 30, Fin 80), (Fin 80, Fin 30)]\<rparr>"
  have fp: "fitting_pairs ?free (orientations ?p)
     = [((Fin 50, Fin 0, Fin 87, Fin 60), (Fin 80, Fin 30)),
        ((Fin 0, Fin 60, Fin 137, Fin 9940), (Fin 30, Fin 80)),
        ((Fin 0, Fin 60, Fin 137, Fin 9940), (Fin 80, Fin 30))]"
    by (simp add: fitting_pairs_def fits_def)
  have lo: "map leftover (fitting_pairs ?free (orientations ?p)) = [Fin 2820, Fin 1359380, Fin 1359380]"
    unfolding fp by (simp add: leftover_def fl_eval)
  then have nn: "\<forall>c \<in> set (fitting_pairs ?free (orientations ?p)). leftover c \<noteq> NaN"
    unfolding fp by simp
  have sp: "select_pair ?free (orientations ?p) = Some ((Fin 50, Fin 0, Fin 87, Fin 60), (Fin 80, Fin 30))"
    using lo unfolding select_pair_def Let_def fp by simp
  have rem: "remainders (Fin 50, Fin 0, Fin 87, Fin 60) (Fin 80, Fin 30)
     = [(Fin 130, Fin 0, Fin 7, Fin 30), (Fin 50, Fin 30, Fin 87, Fin 30)]"
    by (simp add: remainders_def positive_dims_def fl_eval)
  have "pack_loop ?free [(1, Fin 0, Fin 0, Fin 50, Fin 60)] [?p]
     = Some ([(Fin 0, Fin 60, Fin 137, Fin 9940), (Fin 130, Fin 0, Fin 7, Fin 30),
              (Fin 50, Fin 30, Fin 87, Fin 30)],
             [(1, Fin 0, Fin 0, Fin 50, Fin 60), (2, Fin 50, Fin 0, Fin 80, Fin 30)])"
    using pack_selects_least_waste [OF nn, of "[(1, Fin 0, Fin 0, Fin 50, Fin 60)]" "[]"] sp rem
    by simp
  with fp show ?thesis by simp
qed

text \<open>
  The claim read in exact arithmetic does not hold of the source. On a roll of width 137
  a piece of width 20.1 leaves a right remainder whose stored width is the float 116.9,
  which is more than the exact difference of the two floats; a second piece of width
  116.9 is placed in that remainder, where it would not fit were the remainder
  \<open>freeW - pieceW\<close> wide.
\<close>

theorem pack_selects_least_waste_counterexample:
  "pack 137 [\<lparr>pid = 1, orientations = [(Fin (rd (201 / 10)), Fin 200)]\<rparr>,
             \<lparr>pid = 2, orientations = [(Fin (rd (1169 / 10)), Fin 200)]\<rparr>]
     = Some [(1, Fin 0, Fin 0, Fin (rd (201 / 10)), Fin 200),
             (2, Fin (rd (201 / 10)), Fin 0, Fin (rd (1169 / 10)), Fin 200)]
   \<and> \<not> rd (1169 / 10) \<le> 137 - rd (201 / 10)"
  by (simp add: pack_eval)

section \<open>One placement per piece, or failure\<close>


lemma pack_step_Some:
  assumes "pack_step free placed p = Some (free', placed')"
  shows "\<exists>fx fy fw fh w h. ((fx, fy, fw, fh), (w, h)) \<in> set (fitting_pairs free (orientations p))
      \<and> find_best free (orientations p) = Some (cand_of ((fx, fy, fw, fh), (w, h)))
      \<and> free' = remove1 (fx, fy, fw, fh) free @ remainders (fx, fy, fw, fh) (w, h)
      \<and> placed' = placed @ [(pid p, fx, fy, w, h)]"
proof -
  from assms obtain best where b: "find_best free (orientations p) = Some best"
    and pl: "place free placed p best = (free', placed')"
    by (auto simp: pack_step_def split: option.splits)
  from find_best_Some [OF b] obtain c where c: "c \<in> set (fitting_pairs free (orientations p))"
    and best: "best = cand_of c"
    by blast
  obtain fx fy fw fh w h where cc: "c = ((fx, fy, fw, fh), (w, h))"
    by (cases c) auto
  from pl have "free' = remove1 (fx, fy, fw, fh) free @ remainders (fx, fy, fw, fh) (w, h)
      \<and> placed' = placed @ [(pid p, fx, fy, w, h)]"
    unfolding best cc place_cand_of by simp
  with c b show ?thesis unfolding best cc by blast
qed

lemma pack_loop_append:
  "pack_loop free placed (xs @ ys) =
     (case pack_loop free placed xs of None \<Rightarrow> None | Some (f, pl) \<Rightarrow> pack_loop f pl ys)"
  by (induction xs arbitrary: free placed) (auto split: option.splits)

lemma pack_loop_placements:
  "pack_loop free placed ps = Some (free', placed') \<Longrightarrow>
   \<exists>new. placed' = placed @ new \<and> list_all2 is_placement_of ps new"
proof (induction ps arbitrary: free placed)
  case Nil
  then show ?case by simp
next
  case (Cons p ps)
  from Cons.prems obtain f1 pl1 where
    step: "pack_step free placed p = Some (f1, pl1)" and
    rest: "pack_loop f1 pl1 ps = Some (free', placed')"
    by (auto split: option.splits)
  from pack_step_Some [OF step] obtain fx fy fw fh w h where
    sel: "((fx, fy, fw, fh), (w, h)) \<in> set (fitting_pairs free (orientations p))" and
    pl1: "pl1 = placed @ [(pid p, fx, fy, w, h)]"
    by blast
  from sel have "is_placement_of p (pid p, fx, fy, w, h)"
    by (simp add: is_placement_of_def set_fitting_pairs)
  moreover from Cons.IH [OF rest] obtain new where
    "placed' = pl1 @ new" "list_all2 is_placement_of ps new"
    by blast
  ultimately have "placed' = placed @ ((pid p, fx, fy, w, h) # new)
      \<and> list_all2 is_placement_of (p # ps) ((pid p, fx, fy, w, h) # new)"
    using pl1 by simp
  then show ?case by blast
qed




section \<open>Packings without rounding\<close>

lemma fin_Some: "fin v = Some x \<longleftrightarrow> v = Fin x"
  by (cases v) auto

lemma exact_rect_Some:
  "exact_rect (a, b, c, d) = Some (x, y, w, h) \<longleftrightarrow> a = Fin x \<and> b = Fin y \<and> c = Fin w \<and> d = Fin h"
  by (auto simp: exact_rect_def fin_Some split: option.splits)

lemma exact_rect_Fin: "exact_rect (Fin x, Fin y, Fin w, Fin h) = Some (x, y, w, h)"
  by (simp add: exact_rect_Some)

lemma exact_rect_cases:
  assumes "exact_rect r = Some q"
  obtains x y w h where "r = (Fin x, Fin y, Fin w, Fin h)" "q = (x, y, w, h)"
proof -
  obtain a b c d where r: "r = (a, b, c, d)" by (cases r) auto
  obtain x y w h where q: "q = (x, y, w, h)" by (cases q) auto
  from assms have "a = Fin x \<and> b = Fin y \<and> c = Fin w \<and> d = Fin h"
    unfolding r q exact_rect_Some .
  with r q that show ?thesis by blast
qed

lemma positive_dims_Fin: "positive_dims (Fin x, Fin y, Fin w, Fin h) \<longleftrightarrow> 0 < w \<and> 0 < h"
  by (simp add: positive_dims_def)

lemma exact_loop_Cons:
  assumes st: "pack_step free placed p = Some (free', placed')"
    and ex: "exact_loop free placed (p # ps)"
  shows "exact_loop free' placed' ps
    \<and> (\<exists>x y a b c d. (Fin x, Fin y, Fin a, Fin b) \<in> set free
          \<and> (Fin c, Fin d) \<in> set (orientations p) \<and> c \<le> a \<and> d \<le> b
          \<and> free' = remove1 (Fin x, Fin y, Fin a, Fin b) free
                @ filter positive_dims [(Fin (x + c), Fin y, Fin (a - c), Fin d),
                                        (Fin x, Fin (y + d), Fin a, Fin (b - d))]
          \<and> placed' = placed @ [(pid p, Fin x, Fin y, Fin c, Fin d)])"
proof -
  from pack_step_Some [OF st] obtain fx fy fw fh w h where
    sel: "((fx, fy, fw, fh), (w, h)) \<in> set (fitting_pairs free (orientations p))" and
    fb: "find_best free (orientations p) = Some (cand_of ((fx, fy, fw, fh), (w, h)))" and
    free': "free' = remove1 (fx, fy, fw, fh) free @ remainders (fx, fy, fw, fh) (w, h)" and
    placed': "placed' = placed @ [(pid p, fx, fy, w, h)]"
    by blast
  from ex fb have ep: "exact_place (cand_of ((fx, fy, fw, fh), (w, h)))"
    and rest: "exact_loop free' placed' ps"
    by (simp_all add: place_cand_of free' placed')
  from ep obtain q1 q2 where q1: "exact_rect (fx, fy, fw, fh) = Some q1"
    and q2: "exact_rect (fx, fy, w, h) = Some q2"
    by (auto simp: exact_place_def cand_of_def split: option.splits)
  obtain x y a b where f: "fx = Fin x" "fy = Fin y" "fw = Fin a" "fh = Fin b"
    using q1 by (cases q1) (auto simp: exact_rect_Some)
  obtain c d where o: "w = Fin c" "h = Fin d"
    using q2 by (cases q2) (auto simp: exact_rect_Some)
  from ep have ops: "fadd (Fin x) (Fin c) = Fin (x + c)" "fsub (Fin a) (Fin c) = Fin (a - c)"
    "fadd (Fin y) (Fin d) = Fin (y + d)" "fsub (Fin b) (Fin d) = Fin (b - d)"
    unfolding f o by (simp_all add: exact_place_def cand_of_def exact_rect_Fin)
  from sel have mem: "(Fin x, Fin y, Fin a, Fin b) \<in> set free"
    and ori: "(Fin c, Fin d) \<in> set (orientations p)" and fit: "c \<le> a" "d \<le> b"
    unfolding f o by (simp_all add: set_fitting_pairs fits_def)
  have "free' = remove1 (Fin x, Fin y, Fin a, Fin b) free
                @ filter positive_dims [(Fin (x + c), Fin y, Fin (a - c), Fin d),
                                        (Fin x, Fin (y + d), Fin a, Fin (b - d))]"
    unfolding free' f o remainders_def by (simp only: prod.case ops)
  moreover have "placed' = placed @ [(pid p, Fin x, Fin y, Fin c, Fin d)]"
    unfolding placed' f o ..
  ultimately show ?thesis
    using rest mem ori fit by blast
qed

section \<open>The sentinel length\<close>

lemma below_sentinel_Fin: "below_sentinel (Fin x, Fin y, Fin w, Fin h) \<longleftrightarrow> y + h \<le> 10000"
  by (simp add: below_sentinel_def exact_rect_Fin)

lemma pack_step_sentinel:
  assumes "pack_step free placed p = Some (free', placed')"
    and "exact_loop free placed (p # ps)"
    and "sentinel_inv free placed"
  shows "sentinel_inv free' placed'"
proof -
  from exact_loop_Cons [OF assms(1, 2)] obtain x y a b c d where
    mem: "(Fin x, Fin y, Fin a, Fin b) \<in> set free" and fit: "d \<le> b" and
    free': "free' = remove1 (Fin x, Fin y, Fin a, Fin b) free
                @ filter positive_dims [(Fin (x + c), Fin y, Fin (a - c), Fin d),
                                        (Fin x, Fin (y + d), Fin a, Fin (b - d))]" and
    placed': "placed' = placed @ [(pid p, Fin x, Fin y, Fin c, Fin d)]"
    by blast
  from assms(3) mem have top: "y + b \<le> 10000"
    by (auto simp: sentinel_inv_def list_all_iff below_sentinel_Fin)
  with fit have new: "below_sentinel (area_of (pid p, Fin x, Fin y, Fin c, Fin d))"
    by (simp add: below_sentinel_Fin area_of_def)
  from top fit have rem: "\<forall>r \<in> set (filter positive_dims [(Fin (x + c), Fin y, Fin (a - c), Fin d),
                                        (Fin x, Fin (y + d), Fin a, Fin (b - d))]). below_sentinel r"
    by (auto simp: below_sentinel_Fin)
  have old: "\<forall>r \<in> set (remove1 (Fin x, Fin y, Fin a, Fin b) free). below_sentinel r"
    using assms(3) set_remove1_subset [of "(Fin x, Fin y, Fin a, Fin b)" free]
    by (auto simp: sentinel_inv_def list_all_iff)
  from assms(3) new rem old show ?thesis
    unfolding sentinel_inv_def list_all_iff free' placed' by auto
qed

lemma pack_loop_sentinel:
  "pack_loop free placed ps = Some (free', placed') \<Longrightarrow> exact_loop free placed ps
   \<Longrightarrow> sentinel_inv free placed \<Longrightarrow> sentinel_inv free' placed'"
proof (induction ps arbitrary: free placed)
  case Nil
  then show ?case by simp
next
  case (Cons p ps)
  from Cons.prems(1) obtain f1 pl1 where
    step: "pack_step free placed p = Some (f1, pl1)" and
    rest: "pack_loop f1 pl1 ps = Some (free', placed')"
    by (auto split: option.splits)
  from exact_loop_Cons [OF step Cons.prems(2)] have ex: "exact_loop f1 pl1 ps" by blast
  from pack_step_sentinel [OF step Cons.prems(2, 3)] have "sentinel_inv f1 pl1" .
  from Cons.IH [OF rest ex this] show ?case .
qed

lemma foldl_pymax_le:
  "xle v b \<Longrightarrow> \<forall>x \<in> set vs. xle x b \<Longrightarrow> xle (foldl pymax v vs) b"
  by (induction vs arbitrary: v) (auto simp: pymax_def)

lemma fl_of_10000: "fl_of 10000 = Fin 10000"
  by (simp add: fl_eval)

lemma length_layout_le:
  assumes "list_all below_sentinel (map area_of layout)" and "length_layout layout = Inr l"
  shows "xle l (Fin 10000)"
proof -
  have all: "\<forall>v \<in> set (map (\<lambda>(_, _, y, _, h). fadd y h) layout). xle v (Fin 10000)"
  proof
    fix v assume "v \<in> set (map (\<lambda>(_, _, y, _, h). fadd y h) layout)"
    then obtain i x y w h where pl: "(i, x, y, w, h) \<in> set layout" and v: "v = fadd y h"
      by auto
    from assms(1) pl have "below_sentinel (x, y, w, h)"
      by (auto simp: list_all_iff area_of_def)
    then obtain q where q: "exact_rect (x, y, w, h) = Some q"
      by (auto simp: below_sentinel_def split: option.splits)
    then obtain x' y' w' h' where e: "x = Fin x'" "y = Fin y'" "w = Fin w'" "h = Fin h'"
      by (cases q) (auto simp: exact_rect_Some)
    from \<open>below_sentinel (x, y, w, h)\<close> have "y' + h' \<le> 10000"
      unfolding e by (simp add: below_sentinel_Fin)
    then have "xle (fl_of (y' + h')) (fl_of 10000)"
      by (rule xle_fl_of_mono)
    then show "xle v (Fin 10000)"
      unfolding v e by (simp add: fl_of_10000)
  qed
  from assms(2) obtain v vs where
    vs: "map (\<lambda>(_, _, y, _, h). fadd y h) layout = v # vs" and l: "l = foldl pymax v vs"
    by (auto simp: length_layout_def split: list.splits)
  from all vs have "xle v (Fin 10000)" "\<forall>x \<in> set vs. xle x (Fin 10000)"
    by simp_all
  then show ?thesis unfolding l by (rule foldl_pymax_le)
qed

lemma length_layout_defined: "layout \<noteq> [] \<Longrightarrow> \<exists>l. length_layout layout = Inr l"
  by (cases layout) (auto simp: length_layout_def)

text \<open>
  C9 (as amended). The initial free rectangle has the finite length 10000. When no sum
  or difference of the packing is rounded, the length of the layout \<open>pack\<close> returns, where
  it is defined (the layout is not empty), is at most 10000; and \<open>pack\<close> fails on the
  single piece of width 1 and height 20000 at roll width 137, although the piece fits
  the roll's width.
\<close>

theorem pack_length_bounded:
  "(\<forall>layout l. pack ROLL_WIDTH pieces = Some layout \<and> exact_pack ROLL_WIDTH pieces
       \<and> length_layout layout = Inr l \<longrightarrow> xle l (Fin 10000))
   \<and> (\<forall>layout. layout \<noteq> [] \<longrightarrow> (\<exists>l. length_layout layout = Inr l))
   \<and> (\<exists>w h. xle w (Fin 137)
        \<and> (w, h) \<in> set (orientations \<lparr>pid = 1, orientations = [(Fin 1, Fin 20000), (Fin 20000, Fin 1)]\<rparr>))
   \<and> pack 137 [\<lparr>pid = 1, orientations = [(Fin 1, Fin 20000), (Fin 20000, Fin 1)]\<rparr>] = None"
proof (intro conjI allI impI)
  fix layout l
  assume a: "pack ROLL_WIDTH pieces = Some layout \<and> exact_pack ROLL_WIDTH pieces
       \<and> length_layout layout = Inr l"
  then obtain free where
    l: "pack_loop [(Fin 0, Fin 0, Fin ROLL_WIDTH, Fin 10000)] [] pieces = Some (free, layout)"
    by (auto simp: pack_def)
  from a have ex: "exact_loop [(Fin 0, Fin 0, Fin ROLL_WIDTH, Fin 10000)] [] pieces"
    by (simp add: exact_pack_def)
  have "sentinel_inv [(Fin 0, Fin 0, Fin ROLL_WIDTH, Fin 10000)] []"
    by (simp add: sentinel_inv_def below_sentinel_Fin)
  from pack_loop_sentinel [OF l ex this] have "list_all below_sentinel (map area_of layout)"
    by (simp add: sentinel_inv_def)
  with a show "xle l (Fin 10000)"
    using length_layout_le by blast
next
  fix layout :: "placement list" assume "layout \<noteq> []"
  then show "\<exists>l. length_layout layout = Inr l"
    by (rule length_layout_defined)
next
  have "xle (Fin 1) (Fin 137)
      \<and> (Fin 1, Fin 20000) \<in> set (orientations \<lparr>pid = 1, orientations = [(Fin 1, Fin 20000), (Fin 20000, Fin 1)]\<rparr>)"
    by simp
  then show "\<exists>w h. xle w (Fin 137)
      \<and> (w, h) \<in> set (orientations \<lparr>pid = 1, orientations = [(Fin 1, Fin 20000), (Fin 20000, Fin 1)]\<rparr>)"
    by blast
next
  show "pack 137 [\<lparr>pid = 1, orientations = [(Fin 1, Fin 20000), (Fin 20000, Fin 1)]\<rparr>] = None"
    by (simp add: pack_eval)
qed

lemmas exact_eval = exact_pack_def exact_place_def exact_rect_def pack_eval

theorem pack_length_bounded_witness:
  "pack 137 [\<lparr>pid = 1, orientations = [(Fin 50, Fin 60), (Fin 60, Fin 50)]\<rparr>,
             \<lparr>pid = 2, orientations = [(Fin 30, Fin 80), (Fin 80, Fin 30)]\<rparr>]
     = Some [(1, Fin 0, Fin 0, Fin 50, Fin 60), (2, Fin 50, Fin 0, Fin 80, Fin 30)]
   \<and> exact_pack 137 [\<lparr>pid = 1, orientations = [(Fin 50, Fin 60), (Fin 60, Fin 50)]\<rparr>,
                      \<lparr>pid = 2, orientations = [(Fin 30, Fin 80), (Fin 80, Fin 30)]\<rparr>]
   \<and> length_layout [(1, Fin 0, Fin 0, Fin 50, Fin 60), (2, Fin 50, Fin 0, Fin 80, Fin 30)] = Inr (Fin 60)
   \<and> xle (Fin 60) (Fin 10000)"
proof -
  let ?p1 = "\<lparr>pid = 1, orientations = [(Fin 50, Fin 60), (Fin 60, Fin 50)]\<rparr>"
  let ?p2 = "\<lparr>pid = 2, orientations = [(Fin 30, Fin 80), (Fin 80, Fin 30)]\<rparr>"
  let ?L = "[(1, Fin 0, Fin 0, Fin 50, Fin 60), (2, Fin 50, Fin 0, Fin 80, Fin 30)] :: placement list"
  have a: "pack 137 [?p1, ?p2] = Some ?L"
    by (simp add: pack_eval)
  have b: "exact_pack 137 [?p1, ?p2]"
    by (simp add: exact_eval)
  have c: "length_layout ?L = Inr (Fin 60)"
    by (simp add: pack_eval)
  from a b c have "xle (Fin 60) (Fin 10000)"
    using pack_length_bounded [of 137 "[?p1, ?p2]"] by blast
  with a b c show ?thesis by blast
qed

text \<open>
  The claim as stated does not hold of the source. Four pieces as wide as the roll, of
  heights 3726.42, 2926.1, 2139.2 and 1208.28, are stacked with rounded sums, and the
  length of the layout is the float next above 10000.
\<close>

theorem pack_length_bounded_counterexample:
  "map_option length_layout
     (pack 137 [\<lparr>pid = 1, orientations = [(Fin 137, Fin (rd (372642 / 100))), (Fin (rd (372642 / 100)), Fin 137)]\<rparr>,
                \<lparr>pid = 2, orientations = [(Fin 137, Fin (rd (29261 / 10))), (Fin (rd (29261 / 10)), Fin 137)]\<rparr>,
                \<lparr>pid = 3, orientations = [(Fin 137, Fin (rd (21392 / 10))), (Fin (rd (21392 / 10)), Fin 137)]\<rparr>,
                \<lparr>pid = 4, orientations = [(Fin 137, Fin (rd (120828 / 100))), (Fin (rd (120828 / 100)), Fin 137)]\<rparr>])
     = Some (Inr (Fin (5497558138880001 / 549755813888)))
   \<and> \<not> xle (Fin (5497558138880001 / 549755813888)) (Fin 10000)"
  by (simp add: pack_eval)

section \<open>Placements stay apart and within the roll\<close>

lemma apart_sym: "apart a b \<Longrightarrow> apart b a"
  by (simp add: apart_def)

lemma contained_apart: "contained a f \<Longrightarrow> apart f c \<Longrightarrow> apart a c"
  by (auto simp: contained_def apart_def overlaps_def split: option.splits)

lemma contained_inside: "contained a f \<Longrightarrow> inside ROLL_WIDTH f \<Longrightarrow> inside ROLL_WIDTH a"
  by (auto simp: contained_def inside_def split: option.splits)

lemma placed_contained:
  "0 \<le> c \<Longrightarrow> 0 \<le> d \<Longrightarrow> c \<le> a \<Longrightarrow> d \<le> b
   \<Longrightarrow> contained (Fin x, Fin y, Fin c, Fin d) (Fin x, Fin y, Fin a, Fin b)"
  by (simp add: contained_def exact_rect_Fin)

lemma remainders_contained:
  "0 \<le> c \<Longrightarrow> 0 \<le> d \<Longrightarrow> c \<le> a \<Longrightarrow> d \<le> b \<Longrightarrow>
   r \<in> set (filter positive_dims [(Fin (x + c), Fin y, Fin (a - c), Fin d),
                                   (Fin x, Fin (y + d), Fin a, Fin (b - d))])
   \<Longrightarrow> contained r (Fin x, Fin y, Fin a, Fin b)"
  by (auto simp: contained_def exact_rect_Fin split: if_splits)

lemma remainders_apart_placed:
  "r \<in> set (filter positive_dims [(Fin (x + c), Fin y, Fin (a - c), Fin d),
                                   (Fin x, Fin (y + d), Fin a, Fin (b - d))])
   \<Longrightarrow> apart r (Fin x, Fin y, Fin c, Fin d)"
  by (auto simp: apart_def overlaps_def exact_rect_Fin split: if_splits)

lemma remainders_apart:
  "sorted_wrt apart (filter positive_dims [(Fin (x + c), Fin y, Fin (a - c), Fin d),
                                           (Fin x, Fin (y + d), Fin a, Fin (b - d))])"
  by (auto simp: apart_def overlaps_def exact_rect_Fin)

lemma sorted_wrt_remove1: "sorted_wrt P xs \<Longrightarrow> sorted_wrt P (remove1 x xs)"
  by (induction xs) (auto dest: notin_set_remove1)

lemma apart_removed:
  "sorted_wrt apart xs \<Longrightarrow> f \<in> set xs \<Longrightarrow> r \<in> set (remove1 f xs) \<Longrightarrow> apart f r"
proof (induction xs)
  case Nil
  then show ?case by simp
next
  case (Cons a xs)
  show ?case
  proof (cases "a = f")
    case True
    with Cons.prems show ?thesis by simp
  next
    case False
    with Cons.prems have fin: "f \<in> set xs" and r: "r = a \<or> r \<in> set (remove1 f xs)"
      by auto
    from Cons.prems(1) fin have "apart a f" by simp
    then have "apart f a" by (rule apart_sym)
    moreover from Cons.prems(1) have "sorted_wrt apart xs" by simp
    ultimately show ?thesis using r fin Cons.IH by blast
  qed
qed

lemma guillotine_inv_iff:
  "guillotine_inv ROLL_WIDTH free placed \<longleftrightarrow>
     (\<forall>r \<in> set free. inside ROLL_WIDTH r)
     \<and> (\<forall>pl \<in> set placed. inside ROLL_WIDTH (area_of pl))
     \<and> sorted_wrt apart free
     \<and> sorted_wrt apart (map area_of placed)
     \<and> (\<forall>r \<in> set free. \<forall>pl \<in> set placed. apart r (area_of pl))"
  by (auto simp: guillotine_inv_def list_all_iff)

lemma pack_step_guillotine:
  assumes step: "pack_step free placed p = Some (free', placed')"
    and ex: "exact_loop free placed (p # ps)"
    and inv: "guillotine_inv ROLL_WIDTH free placed"
    and nn: "nonneg_piece p"
  shows "guillotine_inv ROLL_WIDTH free' placed'"
proof -
  from exact_loop_Cons [OF step ex] obtain x y a b c d where
    mem: "(Fin x, Fin y, Fin a, Fin b) \<in> set free" and
    ori: "(Fin c, Fin d) \<in> set (orientations p)" and fit: "c \<le> a" "d \<le> b" and
    free': "free' = remove1 (Fin x, Fin y, Fin a, Fin b) free
                @ filter positive_dims [(Fin (x + c), Fin y, Fin (a - c), Fin d),
                                        (Fin x, Fin (y + d), Fin a, Fin (b - d))]" and
    placed': "placed' = placed @ [(pid p, Fin x, Fin y, Fin c, Fin d)]"
    by blast
  let ?f = "(Fin x, Fin y, Fin a, Fin b)"
  let ?P = "(Fin x, Fin y, Fin c, Fin d)"
  let ?rem = "filter positive_dims [(Fin (x + c), Fin y, Fin (a - c), Fin d),
                                    (Fin x, Fin (y + d), Fin a, Fin (b - d))]"
  let ?old = "remove1 ?f free"
  from nn ori have pos: "0 \<le> c" "0 \<le> d"
    by (auto simp: nonneg_piece_def list_all_iff)
  from inv have
    i1: "\<forall>r \<in> set free. inside ROLL_WIDTH r" and
    i2: "\<forall>pl \<in> set placed. inside ROLL_WIDTH (area_of pl)" and
    i3: "sorted_wrt apart free" and
    i4: "sorted_wrt apart (map area_of placed)" and
    i5: "\<forall>r \<in> set free. \<forall>pl \<in> set placed. apart r (area_of pl)"
    by (simp_all add: guillotine_inv_iff)
  have area: "area_of (pid p, Fin x, Fin y, Fin c, Fin d) = ?P"
    by (simp add: area_of_def)
  have Pc: "contained ?P ?f"
    using pos fit by (rule placed_contained)
  have Rc: "\<forall>r \<in> set ?rem. contained r ?f"
    using pos fit remainders_contained by blast
  have old_sub: "\<forall>r \<in> set ?old. r \<in> set free"
    using set_remove1_subset [of ?f free] by blast
  have f_old: "\<forall>r \<in> set ?old. apart ?f r"
    using apart_removed [OF i3 mem] by blast
  have f_placed: "\<forall>pl \<in> set placed. apart ?f (area_of pl)"
    using i5 mem by blast
  have c1: "\<forall>r \<in> set free'. inside ROLL_WIDTH r"
  proof
    fix r assume "r \<in> set free'"
    then have "r \<in> set ?old \<or> r \<in> set ?rem"
      unfolding free' by simp
    then show "inside ROLL_WIDTH r"
    proof
      assume "r \<in> set ?old"
      with old_sub i1 show ?thesis by blast
    next
      assume "r \<in> set ?rem"
      with Rc have "contained r ?f" by blast
      moreover from i1 mem have "inside ROLL_WIDTH ?f" by blast
      ultimately show ?thesis by (rule contained_inside)
    qed
  qed
  have "inside ROLL_WIDTH ?P"
    using Pc i1 mem contained_inside by blast
  then have c2: "\<forall>pl \<in> set placed'. inside ROLL_WIDTH (area_of pl)"
    using i2 area unfolding placed' by auto
  have rem_old: "\<forall>u \<in> set ?old. \<forall>v \<in> set ?rem. apart u v"
  proof (intro ballI)
    fix u v assume "u \<in> set ?old" "v \<in> set ?rem"
    with f_old Rc have "apart ?f u" "contained v ?f" by blast+
    then have "apart v u" by (rule contained_apart [rotated])
    then show "apart u v" by (rule apart_sym)
  qed
  have c3: "sorted_wrt apart free'"
    unfolding free' sorted_wrt_append
    using sorted_wrt_remove1 [OF i3] remainders_apart rem_old by blast
  have P_placed: "\<forall>pl \<in> set placed. apart (area_of pl) ?P"
  proof
    fix pl assume "pl \<in> set placed"
    with f_placed have "apart ?f (area_of pl)" by blast
    with Pc have "apart ?P (area_of pl)" by (rule contained_apart)
    then show "apart (area_of pl) ?P" by (rule apart_sym)
  qed
  have c4: "sorted_wrt apart (map area_of placed')"
    unfolding placed' using i4 P_placed area by (simp add: sorted_wrt_append)
  have c5: "\<forall>r \<in> set free'. \<forall>pl \<in> set placed'. apart r (area_of pl)"
  proof (intro ballI)
    fix r pl assume r: "r \<in> set free'" and pl: "pl \<in> set placed'"
    from r have rc: "r \<in> set ?old \<or> r \<in> set ?rem"
      by (simp add: free')
    from pl have plc: "pl \<in> set placed \<or> area_of pl = ?P"
      using area by (auto simp: placed')
    show "apart r (area_of pl)"
    proof (cases "r \<in> set ?old")
      case True
      show ?thesis
      proof (cases "pl \<in> set placed")
        case True
        with \<open>r \<in> set ?old\<close> old_sub i5 show ?thesis by blast
      next
        case False
        with plc have e: "area_of pl = ?P" by blast
        from True f_old have "apart ?f r" by blast
        with Pc have "apart ?P r" by (rule contained_apart)
        then show ?thesis unfolding e by (rule apart_sym)
      qed
    next
      case False
      with rc have rr: "r \<in> set ?rem" by blast
      show ?thesis
      proof (cases "pl \<in> set placed")
        case True
        with f_placed have "apart ?f (area_of pl)" by blast
        moreover from rr Rc have "contained r ?f" by blast
        ultimately show ?thesis by (rule contained_apart [rotated])
      next
        case False
        with plc have e: "area_of pl = ?P" by blast
        from rr show ?thesis unfolding e by (rule remainders_apart_placed)
      qed
    qed
  qed
  from c1 c2 c3 c4 c5 show ?thesis
    by (simp add: guillotine_inv_iff)
qed

lemma pack_loop_guillotine:
  "pack_loop free placed ps = Some (free', placed') \<Longrightarrow> exact_loop free placed ps
   \<Longrightarrow> guillotine_inv ROLL_WIDTH free placed
   \<Longrightarrow> \<forall>p \<in> set ps. nonneg_piece p \<Longrightarrow> guillotine_inv ROLL_WIDTH free' placed'"
proof (induction ps arbitrary: free placed)
  case Nil
  then show ?case by simp
next
  case (Cons p ps)
  from Cons.prems(1) obtain f1 pl1 where
    step: "pack_step free placed p = Some (f1, pl1)" and
    rest: "pack_loop f1 pl1 ps = Some (free', placed')"
    by (auto split: option.splits)
  from Cons.prems(4) have nn: "nonneg_piece p" "\<forall>p \<in> set ps. nonneg_piece p"
    by simp_all
  from exact_loop_Cons [OF step Cons.prems(2)] have ex: "exact_loop f1 pl1 ps" by blast
  from pack_step_guillotine [OF step Cons.prems(2, 3) nn(1)] have "guillotine_inv ROLL_WIDTH f1 pl1" .
  from Cons.IH [OF rest ex this nn(2)] show ?case .
qed

lemma pack_guillotine:
  assumes "pack ROLL_WIDTH pieces = Some layout" and "exact_pack ROLL_WIDTH pieces"
    and "\<forall>p \<in> set pieces. nonneg_piece p"
  shows "\<exists>free. guillotine_inv ROLL_WIDTH free layout"
proof -
  from assms(1) obtain free where
    l: "pack_loop [(Fin 0, Fin 0, Fin ROLL_WIDTH, Fin 10000)] [] pieces = Some (free, layout)"
    by (auto simp: pack_def)
  from assms(2) have ex: "exact_loop [(Fin 0, Fin 0, Fin ROLL_WIDTH, Fin 10000)] [] pieces"
    by (simp add: exact_pack_def)
  have "guillotine_inv ROLL_WIDTH [(Fin 0, Fin 0, Fin ROLL_WIDTH, Fin 10000)] []"
    by (simp add: guillotine_inv_def inside_def exact_rect_Fin)
  from pack_loop_guillotine [OF l ex this assms(3)] show ?thesis by blast
qed

text \<open>
  C4 (as amended). When \<open>pack\<close> succeeds on pieces whose orientation dimensions are not
  negative, and no sum or difference of the packing is rounded, the placed rectangles
  are pairwise non-overlapping and each lies within \<open>[0, ROLL_WIDTH]\<close> on the width axis.
\<close>

theorem pack_no_overlap_within_roll:
  assumes "pack ROLL_WIDTH pieces = Some layout" and "exact_pack ROLL_WIDTH pieces"
    and "\<forall>p \<in> set pieces. nonneg_piece p"
  shows "(\<forall>i < length layout. \<forall>j < length layout. i \<noteq> j
            \<longrightarrow> \<not> overlaps (area_of (layout ! i)) (area_of (layout ! j)))
         \<and> (\<forall>pl \<in> set layout. within_roll ROLL_WIDTH (area_of pl))"
proof -
  from pack_guillotine [OF assms] obtain free where inv: "guillotine_inv ROLL_WIDTH free layout"
    by blast
  then have srt: "sorted_wrt apart (map area_of layout)"
    and ins: "\<forall>pl \<in> set layout. inside ROLL_WIDTH (area_of pl)"
    by (simp_all add: guillotine_inv_iff)
  have lt: "\<And>i j. i < j \<Longrightarrow> j < length layout \<Longrightarrow> apart (area_of (layout ! i)) (area_of (layout ! j))"
    using srt by (simp add: sorted_wrt_iff_nth_less)
  have "\<forall>i < length layout. \<forall>j < length layout. i \<noteq> j
            \<longrightarrow> \<not> overlaps (area_of (layout ! i)) (area_of (layout ! j))"
  proof (intro allI impI)
    fix i j assume ij: "i < length layout" "j < length layout" "i \<noteq> j"
    show "\<not> overlaps (area_of (layout ! i)) (area_of (layout ! j))"
    proof (cases "i < j")
      case True
      from lt [OF True ij(2)] show ?thesis by (simp add: apart_def)
    next
      case False
      with ij(3) have "j < i" by simp
      from lt [OF this ij(1)] show ?thesis by (simp add: apart_def)
    qed
  qed
  moreover have "\<forall>pl \<in> set layout. within_roll ROLL_WIDTH (area_of pl)"
  proof
    fix pl assume "pl \<in> set layout"
    with ins have "inside ROLL_WIDTH (area_of pl)" by blast
    then show "within_roll ROLL_WIDTH (area_of pl)"
      by (auto simp: inside_def within_roll_def split: option.splits)
  qed
  ultimately show ?thesis by blast
qed

theorem pack_no_overlap_within_roll_witness:
  "pack 137 [\<lparr>pid = 1, orientations = [(Fin 50, Fin 60), (Fin 60, Fin 50)]\<rparr>,
             \<lparr>pid = 2, orientations = [(Fin 30, Fin 80), (Fin 80, Fin 30)]\<rparr>]
     = Some [(1, Fin 0, Fin 0, Fin 50, Fin 60), (2, Fin 50, Fin 0, Fin 80, Fin 30)]
   \<and> exact_pack 137 [\<lparr>pid = 1, orientations = [(Fin 50, Fin 60), (Fin 60, Fin 50)]\<rparr>,
                      \<lparr>pid = 2, orientations = [(Fin 30, Fin 80), (Fin 80, Fin 30)]\<rparr>]
   \<and> list_all nonneg_piece [\<lparr>pid = 1, orientations = [(Fin 50, Fin 60), (Fin 60, Fin 50)]\<rparr>,
                            \<lparr>pid = 2, orientations = [(Fin 30, Fin 80), (Fin 80, Fin 30)]\<rparr>]
   \<and> \<not> overlaps (Fin 0, Fin 0, Fin 50, Fin 60) (Fin 50, Fin 0, Fin 80, Fin 30)
   \<and> within_roll 137 (Fin 0, Fin 0, Fin 50, Fin 60)
   \<and> within_roll 137 (Fin 50, Fin 0, Fin 80, Fin 30)"
proof -
  let ?p1 = "\<lparr>pid = 1, orientations = [(Fin 50, Fin 60), (Fin 60, Fin 50)]\<rparr>"
  let ?p2 = "\<lparr>pid = 2, orientations = [(Fin 30, Fin 80), (Fin 80, Fin 30)]\<rparr>"
  let ?L = "[(1, Fin 0, Fin 0, Fin 50, Fin 60), (2, Fin 50, Fin 0, Fin 80, Fin 30)] :: placement list"
  have a: "pack 137 [?p1, ?p2] = Some ?L"
    by (simp add: pack_eval)
  have b: "exact_pack 137 [?p1, ?p2]"
    by (simp add: exact_eval)
  have c: "list_all nonneg_piece [?p1, ?p2]"
    by (simp add: nonneg_piece_def)
  then have c': "\<forall>p \<in> set [?p1, ?p2]. nonneg_piece p"
    by (simp only: list_all_iff)
  from pack_no_overlap_within_roll [OF a b c'] have
    t1: "\<forall>i < length ?L. \<forall>j < length ?L. i \<noteq> j \<longrightarrow> \<not> overlaps (area_of (?L ! i)) (area_of (?L ! j))"
    and t2: "\<forall>pl \<in> set ?L. within_roll 137 (area_of pl)"
    by blast+
  from t1 have "(0::nat) < length ?L \<longrightarrow> (1::nat) < length ?L \<longrightarrow> (0::nat) \<noteq> 1
      \<longrightarrow> \<not> overlaps (area_of (?L ! 0)) (area_of (?L ! 1))"
    by blast
  then have d: "\<not> overlaps (Fin 0, Fin 0, Fin 50, Fin 60) (Fin 50, Fin 0, Fin 80, Fin 30)"
    by (simp add: area_of_def)
  from t2 have e: "within_roll 137 (Fin 0, Fin 0, Fin 50, Fin 60)
      \<and> within_roll 137 (Fin 50, Fin 0, Fin 80, Fin 30)"
    by (simp add: area_of_def)
  from a b c d e show ?thesis by blast
qed

text \<open>
  The claim as stated does not hold of the source. At roll width 137, four pieces of
  height 200 and widths 38.6, 38.2, 35.9 and 24.3 are placed side by side; the sums and
  differences are rounded, the fourth piece is put at the float next above 112.7, and
  its right edge lies beyond the roll.
\<close>

theorem pack_no_overlap_within_roll_counterexample:
  "pack 137 [\<lparr>pid = 1, orientations = [(Fin (rd (386 / 10)), Fin 200), (Fin 200, Fin (rd (386 / 10)))]\<rparr>,
             \<lparr>pid = 2, orientations = [(Fin (rd (382 / 10)), Fin 200), (Fin 200, Fin (rd (382 / 10)))]\<rparr>,
             \<lparr>pid = 3, orientations = [(Fin (rd (359 / 10)), Fin 200), (Fin 200, Fin (rd (359 / 10)))]\<rparr>,
             \<lparr>pid = 4, orientations = [(Fin (rd (243 / 10)), Fin 200), (Fin 200, Fin (rd (243 / 10)))]\<rparr>]
     = Some [(1, Fin 0, Fin 0, Fin (rd (386 / 10)), Fin 200),
             (2, Fin (rd (386 / 10)), Fin 0, Fin (rd (382 / 10)), Fin 200),
             (3, Fin (1351079888211149 / 17592186044416), Fin 0, Fin (rd (359 / 10)), Fin 200),
             (4, Fin (3965278734411367 / 35184372088832), Fin 0, Fin (rd (243 / 10)), Fin 200)]
   \<and> list_all nonneg_piece
       [\<lparr>pid = 1, orientations = [(Fin (rd (386 / 10)), Fin 200), (Fin 200, Fin (rd (386 / 10)))]\<rparr>,
        \<lparr>pid = 2, orientations = [(Fin (rd (382 / 10)), Fin 200), (Fin 200, Fin (rd (382 / 10)))]\<rparr>,
        \<lparr>pid = 3, orientations = [(Fin (rd (359 / 10)), Fin 200), (Fin 200, Fin (rd (359 / 10)))]\<rparr>,
        \<lparr>pid = 4, orientations = [(Fin (rd (243 / 10)), Fin 200), (Fin 200, Fin (rd (243 / 10)))]\<rparr>]
   \<and> \<not> within_roll 137
         (area_of (4, Fin (3965278734411367 / 35184372088832), Fin 0, Fin (rd (243 / 10)), Fin 200))
   \<and> 137 < 3965278734411367 / 35184372088832 + rd (243 / 10)"
  by (simp add: pack_eval nonneg_piece_def within_roll_def area_of_def exact_rect_def)

section \<open>Multi-pass search: results\<close>

lemma length_layout_nonempty: "layout \<noteq> [] \<Longrightarrow> length_layout layout = Inr (layout_len layout)"
  by (cases layout) (auto simp: layout_len_def length_layout_def)

lemma optimize_loop_fold:
  "optimize_loop ROLL_WIDTH passes pieces best_layout best_len =
     Inr (fst (foldl take_pass (best_layout, best_len)
                 (filter (\<lambda>layout. layout \<noteq> []) (successes ROLL_WIDTH passes pieces))),
          snd (foldl take_pass (best_layout, best_len)
                 (filter (\<lambda>layout. layout \<noteq> []) (successes ROLL_WIDTH passes pieces))),
          after_passes passes pieces)"
proof (induction passes arbitrary: pieces best_layout best_len)
  case Nil
  then show ?case by (simp add: successes_def after_passes_def)
next
  case (Cons shuffle rest)
  have succ: "successes ROLL_WIDTH (shuffle # rest) pieces =
      (case pack ROLL_WIDTH (shuffle pieces) of None \<Rightarrow> [] | Some layout \<Rightarrow> [layout])
        @ successes ROLL_WIDTH rest (shuffle pieces)"
    by (simp add: successes_def)
  have aft: "after_passes (shuffle # rest) pieces = after_passes rest (shuffle pieces)"
    by (simp add: after_passes_def)
  show ?case
  proof (cases "pack ROLL_WIDTH (shuffle pieces)")
    case None
    then show ?thesis
      by (simp add: succ aft Cons.IH Let_def)
  next
    case (Some layout)
    show ?thesis
    proof (cases "layout = []")
      case True
      with Some show ?thesis
        by (simp add: succ aft Cons.IH Let_def)
    next
      case False
      with Some show ?thesis
        by (simp add: succ aft Cons.IH Let_def length_layout_nonempty take_pass_def)
    qed
  qed
qed

lemma permuting_Nil: "permuting shuffle \<Longrightarrow> shuffle [] = []"
  by (metis permuting_def mset_zero_iff)

lemma orders_mset:
  "\<forall>shuffle \<in> set passes. permuting shuffle \<Longrightarrow> order \<in> set (orders passes pieces)
   \<Longrightarrow> mset order = mset pieces"
proof (induction passes arbitrary: pieces)
  case Nil
  then show ?case by simp
next
  case (Cons shuffle rest)
  from Cons.prems(1) have p: "mset (shuffle pieces) = mset pieces"
    by (simp add: permuting_def)
  from Cons.prems(2) have "order = shuffle pieces \<or> order \<in> set (orders rest (shuffle pieces))"
    by simp
  then show ?case
  proof
    assume "order = shuffle pieces"
    with p show ?thesis by simp
  next
    assume "order \<in> set (orders rest (shuffle pieces))"
    with Cons.IH [of "shuffle pieces"] Cons.prems(1) have "mset order = mset (shuffle pieces)"
      by simp
    with p show ?thesis by simp
  qed
qed

lemma after_passes_mset:
  "\<forall>shuffle \<in> set passes. permuting shuffle \<Longrightarrow> mset (after_passes passes pieces) = mset pieces"
  unfolding after_passes_def
  by (induction passes arbitrary: pieces) (simp_all add: permuting_def)

lemma length_orders: "length (orders passes pieces) = length passes"
  by (induction passes arbitrary: pieces) simp_all

lemma successes_empty_pieces:
  "\<forall>shuffle \<in> set passes. permuting shuffle \<Longrightarrow>
   filter (\<lambda>layout. layout \<noteq> []) (successes ROLL_WIDTH passes []) = []"
proof -
  assume a: "\<forall>shuffle \<in> set passes. permuting shuffle"
  have "\<forall>order \<in> set (orders passes []). order = []"
    using orders_mset [OF a] by fastforce
  moreover have "pack ROLL_WIDTH [] = Some []"
    by (simp add: pack_def)
  ultimately show ?thesis
    by (auto simp: successes_def filter_empty_conv split: option.splits)
qed

text \<open>
  C7 (as amended). On the empty piece list \<open>optimize\<close> returns \<open>(None, None)\<close>, the value it
  returns when every pass fails, whatever the number of passes: the empty layout that
  \<open>pack\<close> returns is taken as false by \<^verbatim>\<open>if layout\<close>. The caller stops with an error on an
  empty piece list before it calls \<open>optimize\<close>.
\<close>

theorem optimize_empty:
  assumes "\<forall>shuffle \<in> set passes. permuting shuffle"
  shows "optimize ROLL_WIDTH passes [] = Inr (None, None, [])
    \<and> run_optimizer ROLL_WIDTH OVERLAP passes [] = Stopped"
proof -
  have "after_passes passes [] = []"
    using after_passes_mset [OF assms, of "[]"] by simp
  then have "optimize ROLL_WIDTH passes [] = Inr (None, None, [])"
    by (simp add: optimize_def optimize_loop_fold successes_empty_pieces [OF assms])
  moreover have "run_optimizer ROLL_WIDTH OVERLAP passes [] = Stopped"
    by (simp add: run_optimizer_def expand_def)
  ultimately show ?thesis by simp
qed

lemma permuting_rev: "permuting rev"
  by (simp add: permuting_def)

theorem optimize_empty_witness:
  "list_all permuting [rev, rev]
   \<and> optimize 137 [rev, rev] [] = Inr (None, None, [])
   \<and> run_optimizer 137 1 [rev, rev] [] = Stopped"
proof -
  have a: "\<forall>shuffle \<in> set [rev, rev]. permuting shuffle"
    by (simp add: permuting_rev)
  from optimize_empty [OF a, of 137 1] a show ?thesis by (simp add: list_all_iff)
qed

text \<open>
  The claim as the specification states it, an empty layout with length 0 for the empty
  list, does not hold of the source.
\<close>

theorem optimize_empty_counterexample:
  "optimize 137 [rev, rev] [] \<noteq> Inr (Some [], Some (Fin 0), [])"
  by (simp add: optimize_def pack_def)

text \<open>
  C10. \<open>optimize\<close> shuffles the caller's list in place at every pass and \<open>pack\<close> leaves it
  as it is: the list after the call is the outcome of the successive shuffles, a
  permutation of the list passed in, and in general not the list passed in.
\<close>

theorem optimize_shuffles_in_place:
  "(\<exists>best_layout best_len.
      optimize ROLL_WIDTH passes pieces = Inr (best_layout, best_len, after_passes passes pieces))
   \<and> ((\<forall>shuffle \<in> set passes. permuting shuffle)
        \<longrightarrow> mset (after_passes passes pieces) = mset pieces)
   \<and> after_passes [rev] [\<lparr>pid = 1, orientations = [(Fin 50, Fin 60), (Fin 60, Fin 50)]\<rparr>,
                       \<lparr>pid = 2, orientations = [(Fin 30, Fin 80), (Fin 80, Fin 30)]\<rparr>]
       \<noteq> [\<lparr>pid = 1, orientations = [(Fin 50, Fin 60), (Fin 60, Fin 50)]\<rparr>,
          \<lparr>pid = 2, orientations = [(Fin 30, Fin 80), (Fin 80, Fin 30)]\<rparr>]"
proof (intro conjI impI)
  show "\<exists>best_layout best_len.
      optimize ROLL_WIDTH passes pieces = Inr (best_layout, best_len, after_passes passes pieces)"
    by (simp add: optimize_def optimize_loop_fold)
next
  assume "\<forall>shuffle \<in> set passes. permuting shuffle"
  then show "mset (after_passes passes pieces) = mset pieces"
    by (rule after_passes_mset)
next
  show "after_passes [rev] [\<lparr>pid = 1, orientations = [(Fin 50, Fin 60), (Fin 60, Fin 50)]\<rparr>,
                       \<lparr>pid = 2, orientations = [(Fin 30, Fin 80), (Fin 80, Fin 30)]\<rparr>]
       \<noteq> [\<lparr>pid = 1, orientations = [(Fin 50, Fin 60), (Fin 60, Fin 50)]\<rparr>,
          \<lparr>pid = 2, orientations = [(Fin 30, Fin 80), (Fin 80, Fin 30)]\<rparr>]"
    by (simp add: after_passes_def)
qed

theorem optimize_shuffles_in_place_witness:
  "list_all permuting [rev]
   \<and> optimize 137 [rev] [\<lparr>pid = 1, orientations = [(Fin 50, Fin 60), (Fin 60, Fin 50)]\<rparr>,
                        \<lparr>pid = 2, orientations = [(Fin 30, Fin 80), (Fin 80, Fin 30)]\<rparr>]
     = Inr (Some [(2, Fin 0, Fin 0, Fin 30, Fin 80), (1, Fin 30, Fin 0, Fin 50, Fin 60)], Some (Fin 80),
            [\<lparr>pid = 2, orientations = [(Fin 30, Fin 80), (Fin 80, Fin 30)]\<rparr>,
             \<lparr>pid = 1, orientations = [(Fin 50, Fin 60), (Fin 60, Fin 50)]\<rparr>])
   \<and> mset (after_passes [rev] [\<lparr>pid = 1, orientations = [(Fin 50, Fin 60), (Fin 60, Fin 50)]\<rparr>,
                               \<lparr>pid = 2, orientations = [(Fin 30, Fin 80), (Fin 80, Fin 30)]\<rparr>])
     = mset [\<lparr>pid = 1, orientations = [(Fin 50, Fin 60), (Fin 60, Fin 50)]\<rparr>,
             \<lparr>pid = 2, orientations = [(Fin 30, Fin 80), (Fin 80, Fin 30)]\<rparr>]"
proof -
  let ?p1 = "\<lparr>pid = 1, orientations = [(Fin 50, Fin 60), (Fin 60, Fin 50)]\<rparr>"
  let ?p2 = "\<lparr>pid = 2, orientations = [(Fin 30, Fin 80), (Fin 80, Fin 30)]\<rparr>"
  have a: "\<forall>shuffle \<in> set [rev]. permuting shuffle"
    by (simp add: permuting_rev)
  have pa: "pack 137 [?p2, ?p1] = Some [(2, Fin 0, Fin 0, Fin 30, Fin 80), (1, Fin 30, Fin 0, Fin 50, Fin 60)]"
    by (simp add: pack_eval)
  have la: "length_layout [(2, Fin 0, Fin 0, Fin 30, Fin 80), (1, Fin 30, Fin 0, Fin 50, Fin 60)] = Inr (Fin 80)"
    by (simp add: pack_eval)
  have b: "optimize 137 [rev] [?p1, ?p2]
     = Inr (Some [(2, Fin 0, Fin 0, Fin 30, Fin 80), (1, Fin 30, Fin 0, Fin 50, Fin 60)], Some (Fin 80),
            [?p2, ?p1])"
    by (simp add: optimize_def pa la replaces_def)
  from optimize_shuffles_in_place [of 137 "[rev]" "[?p1, ?p2]"] a
  have c: "mset (after_passes [rev] [?p1, ?p2]) = mset [?p1, ?p2]"
    by blast
  from a b c show ?thesis by (simp add: list_all_iff)
qed

lemma xlt_trans: "xlt a b \<Longrightarrow> xlt b c \<Longrightarrow> xlt a c"
  by (cases a; cases b; cases c) auto

lemma xle_xlt_trans: "xle a b \<Longrightarrow> xlt b c \<Longrightarrow> xlt a c"
  by (cases a; cases b; cases c) auto

lemma xlt_0_neq: "xlt (Fin 0) v \<Longrightarrow> v \<noteq> NaN \<and> v \<noteq> Fin 0"
  by (cases v) auto

lemma foldl_pymax_pos: "xlt (Fin 0) v \<Longrightarrow> xlt (Fin 0) (foldl pymax v vs)"
proof (induction vs arbitrary: v)
  case Nil
  then show ?case by simp
next
  case (Cons a vs)
  have "xlt (Fin 0) (pymax v a)"
    using Cons.prems xlt_trans [of "Fin 0" v a] by (simp add: pymax_def)
  then show ?case
    using Cons.IH by simp
qed

lemma pos_float_fadd: "pos_float h \<Longrightarrow> xlt (Fin 0) (fadd (Fin 0) h)"
  by (cases h) (simp_all add: fl_of_double)

lemma foldl_take_pass_Some:
  assumes "\<forall>a \<in> set (b # ls). xlt (Fin 0) (layout_len a)"
  shows "foldl take_pass (Some b, Some (layout_len b)) ls
     = (find (\<lambda>a. \<forall>c \<in> set (b # ls). xle (layout_len a) (layout_len c)) (b # ls),
        map_option layout_len
          (find (\<lambda>a. \<forall>c \<in> set (b # ls). xle (layout_len a) (layout_len c)) (b # ls)))"
proof -
  let ?k = "\<lambda>a. key (layout_len a)"
  have fold: "foldl take_pass (Some b, Some (layout_len b)) ls
     = (find (\<lambda>a. \<forall>c \<in> set (b # ls). ?k a \<le> ?k c) (b # ls),
        map_option layout_len (find (\<lambda>a. \<forall>c \<in> set (b # ls). ?k a \<le> ?k c) (b # ls)))"
    using assms
  proof (induction ls arbitrary: b)
    case Nil
    then show ?case by simp
  next
    case (Cons c ls)
    from Cons.prems have pb: "xlt (Fin 0) (layout_len b)" and pc: "xlt (Fin 0) (layout_len c)"
      and nb: "\<forall>a \<in> set (b # ls). xlt (Fin 0) (layout_len a)"
      and nc: "\<forall>a \<in> set (c # ls). xlt (Fin 0) (layout_len a)"
      by simp_all
    from pb pc have lt: "replaces (Some (layout_len b)) (layout_len c) \<longleftrightarrow> ?k c < ?k b"
      using xlt_0_neq [of "layout_len b"] xlt_0_neq [of "layout_len c"]
      by (simp add: replaces_def xlt_key)
    show ?case
    proof (cases "?k c < ?k b")
      case True
      have e: "find (\<lambda>x. \<forall>d \<in> set (c # ls). ?k x \<le> ?k d) (c # ls)
          = find (\<lambda>x. \<forall>d \<in> set (b # c # ls). ?k x \<le> ?k d) (b # c # ls)"
      proof -
        have "find (\<lambda>x. \<forall>d \<in> set (c # ls). ?k x \<le> ?k d) (c # ls)
          = find (\<lambda>x. \<forall>d \<in> set (b # c # ls). ?k x \<le> ?k d) (c # ls)"
          using True by (intro find_cong) auto
        also have "\<dots> = find (\<lambda>x. \<forall>d \<in> set (b # c # ls). ?k x \<le> ?k d) (b # c # ls)"
          using True by auto
        finally show ?thesis .
      qed
      from True lt have "foldl take_pass (Some b, Some (layout_len b)) (c # ls)
          = foldl take_pass (Some c, Some (layout_len c)) ls"
        by (simp add: take_pass_def)
      also note Cons.IH [OF nc]
      finally show ?thesis unfolding e .
    next
      case False
      have e: "find (\<lambda>x. \<forall>d \<in> set (b # ls). ?k x \<le> ?k d) (b # ls)
          = find (\<lambda>x. \<forall>d \<in> set (b # c # ls). ?k x \<le> ?k d) (b # c # ls)"
      proof -
        have "find (\<lambda>x. \<forall>d \<in> set (b # ls). ?k x \<le> ?k d) (b # ls)
          = find (\<lambda>x. \<forall>d \<in> set (b # c # ls). ?k x \<le> ?k d) (b # ls)"
          using False by (intro find_cong) auto
        also have "\<dots> = find (\<lambda>x. \<forall>d \<in> set (b # c # ls). ?k x \<le> ?k d) (b # c # ls)"
          using False by auto
        finally show ?thesis .
      qed
      from False lt have "foldl take_pass (Some b, Some (layout_len b)) (c # ls)
          = foldl take_pass (Some b, Some (layout_len b)) ls"
        by (simp add: take_pass_def)
      also note Cons.IH [OF nb]
      finally show ?thesis unfolding e .
    qed
  qed
  have nn: "\<forall>a \<in> set (b # ls). layout_len a \<noteq> NaN"
    using assms xlt_0_neq by blast
  have "find (\<lambda>a. \<forall>c \<in> set (b # ls). ?k a \<le> ?k c) (b # ls)
      = find (\<lambda>a. \<forall>c \<in> set (b # ls). xle (layout_len a) (layout_len c)) (b # ls)"
    using nn by (intro find_cong) (auto simp: xle_key)
  with fold show ?thesis by simp
qed

lemma foldl_take_pass_None:
  assumes "\<forall>a \<in> set ls. xlt (Fin 0) (layout_len a)"
  shows "foldl take_pass (None, None) ls
     = (earliest_shortest ls, map_option layout_len (earliest_shortest ls))"
proof (cases ls)
  case Nil
  then show ?thesis by (simp add: earliest_shortest_def)
next
  case (Cons b rest)
  have "foldl take_pass (None, None) ls = foldl take_pass (Some b, Some (layout_len b)) rest"
    by (simp add: Cons take_pass_def replaces_def)
  also have "\<dots> = (find (\<lambda>a. \<forall>c \<in> set (b # rest). xle (layout_len a) (layout_len c)) (b # rest),
        map_option layout_len
          (find (\<lambda>a. \<forall>c \<in> set (b # rest). xle (layout_len a) (layout_len c)) (b # rest)))"
    using assms unfolding Cons by (rule foldl_take_pass_Some)
  finally show ?thesis
    by (simp only: earliest_shortest_def Cons)
qed

lemma earliest_shortest_least:
  assumes ne: "ls \<noteq> []" and nn: "\<forall>a \<in> set ls. layout_len a \<noteq> NaN"
  shows "\<exists>i < length ls. earliest_shortest ls = Some (ls ! i)
      \<and> (\<forall>b \<in> set ls. xle (layout_len (ls ! i)) (layout_len b))
      \<and> (\<forall>j < i. xlt (layout_len (ls ! i)) (layout_len (ls ! j)))"
proof -
  let ?k = "\<lambda>a. key (layout_len a)"
  let ?P = "\<lambda>a. \<forall>b \<in> set ls. xle (layout_len a) (layout_len b)"
  from ne have "arg_min_list ?k ls \<in> set ls"
    by (rule arg_min_list_in)
  moreover have "\<forall>d \<in> set ls. ?k (arg_min_list ?k ls) \<le> ?k d"
  proof
    fix d assume "d \<in> set ls"
    then have "Min (?k ` set ls) \<le> ?k d" by (intro Min_le) simp_all
    then show "?k (arg_min_list ?k ls) \<le> ?k d"
      using f_arg_min_list_f [OF ne, of ?k] by simp
  qed
  ultimately have "\<exists>c \<in> set ls. \<forall>d \<in> set ls. ?k c \<le> ?k d" by blast
  then have "\<exists>c \<in> set ls. ?P c"
    using nn by (auto simp: xle_key)
  then have "find ?P ls \<noteq> None"
    unfolding find_None_iff by blast
  then obtain a where a: "find ?P ls = Some a" by blast
  then obtain i where i: "i < length ls" and Pi: "?P (ls ! i)" and ai: "a = ls ! i"
    and early: "\<forall>j < i. \<not> ?P (ls ! j)"
    unfolding find_Some_iff by blast
  have "\<forall>j < i. xlt (layout_len (ls ! i)) (layout_len (ls ! j))"
  proof (intro allI impI)
    fix j assume j: "j < i"
    with early obtain b where b: "b \<in> set ls" and n: "\<not> xle (layout_len (ls ! j)) (layout_len b)"
      by blast
    from j i have "ls ! j \<in> set ls" by simp
    with nn b have "layout_len (ls ! j) \<noteq> NaN" "layout_len b \<noteq> NaN" by blast+
    with n have "xlt (layout_len b) (layout_len (ls ! j))"
      using not_xle_xlt by blast
    moreover from Pi b have "xle (layout_len (ls ! i)) (layout_len b)" by blast
    ultimately show "xlt (layout_len (ls ! i)) (layout_len (ls ! j))"
      using xle_xlt_trans by blast
  qed
  with i Pi a ai show ?thesis
    unfolding earliest_shortest_def by blast
qed

lemma pack_positive_len:
  assumes p: "pack ROLL_WIDTH order = Some layout"
    and ne: "order \<noteq> []"
    and pos: "\<forall>p \<in> set order. positive_piece p"
  shows "layout \<noteq> [] \<and> xlt (Fin 0) (layout_len layout)"
proof -
  from ne obtain q qs where o: "order = q # qs"
    by (cases order) auto
  from p obtain free where
    l: "pack_loop [(Fin 0, Fin 0, Fin ROLL_WIDTH, Fin 10000)] [] (q # qs) = Some (free, layout)"
    by (auto simp: pack_def o)
  then obtain f1 pl1 where
    step: "pack_step [(Fin 0, Fin 0, Fin ROLL_WIDTH, Fin 10000)] [] q = Some (f1, pl1)" and
    rest: "pack_loop f1 pl1 qs = Some (free, layout)"
    by (auto split: option.splits)
  from pack_step_Some [OF step] obtain fx fy fw fh w h where
    sel: "((fx, fy, fw, fh), (w, h))
        \<in> set (fitting_pairs [(Fin 0, Fin 0, Fin ROLL_WIDTH, Fin 10000)] (orientations q))" and
    pl1: "pl1 = [] @ [(pid q, fx, fy, w, h)]"
    by blast
  from sel have fy: "fy = Fin 0" and ori: "(w, h) \<in> set (orientations q)"
    by (simp_all add: set_fitting_pairs)
  from pos o have "positive_piece q" by simp
  with ori have "pos_float h"
    by (auto simp: positive_piece_def list_all_iff)
  then have first: "xlt (Fin 0) (fadd (Fin 0) h)"
    by (rule pos_float_fadd)
  from pack_loop_placements [OF rest] obtain new where L: "layout = pl1 @ new"
    by blast
  then have L': "layout = (pid q, fx, Fin 0, w, h) # new"
    by (simp add: pl1 fy)
  then have "layout_len layout
      = foldl pymax (fadd (Fin 0) h) (map (\<lambda>(_, _, y, _, h). fadd y h) new)"
    by (simp add: layout_len_def length_layout_def)
  with first have "xlt (Fin 0) (layout_len layout)"
    by (simp add: foldl_pymax_pos)
  with L' show ?thesis by simp
qed

lemma successes_positive:
  assumes ne: "pieces \<noteq> []"
    and pos: "\<forall>p \<in> set pieces. positive_piece p"
    and perm: "\<forall>shuffle \<in> set passes. permuting shuffle"
    and mem: "layout \<in> set (successes ROLL_WIDTH passes pieces)"
  shows "layout \<noteq> [] \<and> xlt (Fin 0) (layout_len layout)"
proof -
  from mem obtain order where o: "order \<in> set (orders passes pieces)"
    and p: "pack ROLL_WIDTH order = Some layout"
    by (auto simp: successes_def split: option.splits)
  from orders_mset [OF perm o] have m: "mset order = mset pieces" .
  then have "set order = set pieces"
    by (rule mset_eq_setD)
  with pos have pos': "\<forall>p \<in> set order. positive_piece p"
    by simp
  from m ne have "order \<noteq> []"
    by auto
  from pack_positive_len [OF p this pos'] show ?thesis .
qed

lemma successes_Nil:
  "successes ROLL_WIDTH passes pieces = []
     \<longleftrightarrow> (\<forall>order \<in> set (orders passes pieces). pack ROLL_WIDTH order = None)"
  by (auto simp: successes_def split: option.splits)

text \<open>
  C3 (as amended). For a non-empty list of pieces whose dimensions are positive floats,
  \<open>optimize\<close> makes one attempt per pass, each on a permutation of the pieces. It returns
  the earliest layout of smallest length among the attempts that packed, with that
  length: no attempt that packed is shorter, and every earlier one is strictly longer.
  It returns \<open>(None, None)\<close> when every attempt fails.
\<close>

theorem optimize_keeps_shortest:
  assumes "pieces \<noteq> []"
    and "\<forall>p \<in> set pieces. positive_piece p"
    and "\<forall>shuffle \<in> set passes. permuting shuffle"
  shows "optimize ROLL_WIDTH passes pieces
       = Inr (earliest_shortest (successes ROLL_WIDTH passes pieces),
              map_option layout_len (earliest_shortest (successes ROLL_WIDTH passes pieces)),
              after_passes passes pieces)
     \<and> (\<forall>layout \<in> set (successes ROLL_WIDTH passes pieces).
           length_layout layout = Inr (layout_len layout))
     \<and> (successes ROLL_WIDTH passes pieces \<noteq> [] \<longrightarrow>
          (\<exists>i < length (successes ROLL_WIDTH passes pieces).
              earliest_shortest (successes ROLL_WIDTH passes pieces)
                = Some (successes ROLL_WIDTH passes pieces ! i)
            \<and> (\<forall>b \<in> set (successes ROLL_WIDTH passes pieces).
                  xle (layout_len (successes ROLL_WIDTH passes pieces ! i)) (layout_len b))
            \<and> (\<forall>j < i. xlt (layout_len (successes ROLL_WIDTH passes pieces ! i))
                           (layout_len (successes ROLL_WIDTH passes pieces ! j)))))
     \<and> (successes ROLL_WIDTH passes pieces = [] \<longrightarrow>
          earliest_shortest (successes ROLL_WIDTH passes pieces) = None)
     \<and> (successes ROLL_WIDTH passes pieces = []
           \<longleftrightarrow> (\<forall>order \<in> set (orders passes pieces). pack ROLL_WIDTH order = None))
     \<and> length (orders passes pieces) = length passes
     \<and> (\<forall>order \<in> set (orders passes pieces). mset order = mset pieces)"
proof -
  let ?ls = "successes ROLL_WIDTH passes pieces"
  have good: "\<forall>layout \<in> set ?ls. layout \<noteq> [] \<and> xlt (Fin 0) (layout_len layout)"
    using successes_positive [OF assms] by blast
  then have flt: "filter (\<lambda>layout. layout \<noteq> []) ?ls = ?ls"
    by (simp add: filter_id_conv)
  from good have pos: "\<forall>a \<in> set ?ls. xlt (Fin 0) (layout_len a)"
    by blast
  then have nn: "\<forall>a \<in> set ?ls. layout_len a \<noteq> NaN"
    using xlt_0_neq by blast
  have a: "optimize ROLL_WIDTH passes pieces
       = Inr (earliest_shortest ?ls, map_option layout_len (earliest_shortest ?ls),
              after_passes passes pieces)"
    by (simp add: optimize_def optimize_loop_fold flt foldl_take_pass_None [OF pos])
  have b: "\<forall>layout \<in> set ?ls. length_layout layout = Inr (layout_len layout)"
    using good length_layout_nonempty by blast
  have c: "?ls \<noteq> [] \<longrightarrow>
          (\<exists>i < length ?ls. earliest_shortest ?ls = Some (?ls ! i)
            \<and> (\<forall>b \<in> set ?ls. xle (layout_len (?ls ! i)) (layout_len b))
            \<and> (\<forall>j < i. xlt (layout_len (?ls ! i)) (layout_len (?ls ! j))))"
    using earliest_shortest_least [OF _ nn] by blast
  have c': "?ls = [] \<longrightarrow> earliest_shortest ?ls = None"
    by (simp add: earliest_shortest_def)
  have d: "?ls = [] \<longleftrightarrow> (\<forall>order \<in> set (orders passes pieces). pack ROLL_WIDTH order = None)"
    by (rule successes_Nil)
  have e: "length (orders passes pieces) = length passes"
    by (rule length_orders)
  have f: "\<forall>order \<in> set (orders passes pieces). mset order = mset pieces"
    using orders_mset [OF assms(3)] by blast
  from a b c c' d e f show ?thesis by blast
qed

theorem optimize_keeps_shortest_witness:
  "[\<lparr>pid = 1, orientations = [(Fin 50, Fin 60), (Fin 60, Fin 50)]\<rparr>,
    \<lparr>pid = 2, orientations = [(Fin 30, Fin 80), (Fin 80, Fin 30)]\<rparr>] \<noteq> []
   \<and> list_all positive_piece [\<lparr>pid = 1, orientations = [(Fin 50, Fin 60), (Fin 60, Fin 50)]\<rparr>,
                              \<lparr>pid = 2, orientations = [(Fin 30, Fin 80), (Fin 80, Fin 30)]\<rparr>]
   \<and> list_all permuting [rev, rev, rev, rev]
   \<and> successes 137 [rev, rev, rev, rev]
        [\<lparr>pid = 1, orientations = [(Fin 50, Fin 60), (Fin 60, Fin 50)]\<rparr>,
         \<lparr>pid = 2, orientations = [(Fin 30, Fin 80), (Fin 80, Fin 30)]\<rparr>]
      = [[(2, Fin 0, Fin 0, Fin 30, Fin 80), (1, Fin 30, Fin 0, Fin 50, Fin 60)],
         [(1, Fin 0, Fin 0, Fin 50, Fin 60), (2, Fin 50, Fin 0, Fin 80, Fin 30)],
         [(2, Fin 0, Fin 0, Fin 30, Fin 80), (1, Fin 30, Fin 0, Fin 50, Fin 60)],
         [(1, Fin 0, Fin 0, Fin 50, Fin 60), (2, Fin 50, Fin 0, Fin 80, Fin 30)]]
   \<and> optimize 137 [rev, rev, rev, rev]
        [\<lparr>pid = 1, orientations = [(Fin 50, Fin 60), (Fin 60, Fin 50)]\<rparr>,
         \<lparr>pid = 2, orientations = [(Fin 30, Fin 80), (Fin 80, Fin 30)]\<rparr>]
      = Inr (Some [(1, Fin 0, Fin 0, Fin 50, Fin 60), (2, Fin 50, Fin 0, Fin 80, Fin 30)], Some (Fin 60),
             [\<lparr>pid = 1, orientations = [(Fin 50, Fin 60), (Fin 60, Fin 50)]\<rparr>,
              \<lparr>pid = 2, orientations = [(Fin 30, Fin 80), (Fin 80, Fin 30)]\<rparr>])"
proof -
  let ?p1 = "\<lparr>pid = 1, orientations = [(Fin 50, Fin 60), (Fin 60, Fin 50)]\<rparr>"
  let ?p2 = "\<lparr>pid = 2, orientations = [(Fin 30, Fin 80), (Fin 80, Fin 30)]\<rparr>"
  let ?A = "[(2, Fin 0, Fin 0, Fin 30, Fin 80), (1, Fin 30, Fin 0, Fin 50, Fin 60)] :: placement list"
  let ?B = "[(1, Fin 0, Fin 0, Fin 50, Fin 60), (2, Fin 50, Fin 0, Fin 80, Fin 30)] :: placement list"
  have ne: "[?p1, ?p2] \<noteq> []" by simp
  have pos: "\<forall>p \<in> set [?p1, ?p2]. positive_piece p"
    by (simp add: positive_piece_def fl_eval)
  have perm: "\<forall>shuffle \<in> set [rev, rev, rev, rev]. permuting shuffle"
    by (simp add: permuting_rev)
  have pa: "pack 137 [?p2, ?p1] = Some ?A"
    by (simp add: pack_eval)
  have pb: "pack 137 [?p1, ?p2] = Some ?B"
    by (simp add: pack_eval)
  have s: "successes 137 [rev, rev, rev, rev] [?p1, ?p2] = [?A, ?B, ?A, ?B]"
    by (simp add: successes_def pa pb)
  have la: "layout_len ?A = Fin 80" and lb: "layout_len ?B = Fin 60"
    by (simp_all add: layout_len_def pack_eval)
  have es: "earliest_shortest [?A, ?B, ?A, ?B] = Some ?B"
    by (simp add: earliest_shortest_def la lb)
  have af: "after_passes [rev, rev, rev, rev] [?p1, ?p2] = [?p1, ?p2]"
    by (simp add: after_passes_def)
  from optimize_keeps_shortest [OF ne pos perm, of 137]
  have "optimize 137 [rev, rev, rev, rev] [?p1, ?p2]
       = Inr (earliest_shortest (successes 137 [rev, rev, rev, rev] [?p1, ?p2]),
              map_option layout_len (earliest_shortest (successes 137 [rev, rev, rev, rev] [?p1, ?p2])),
              after_passes [rev, rev, rev, rev] [?p1, ?p2])"
    by blast
  then have "optimize 137 [rev, rev, rev, rev] [?p1, ?p2] = Inr (Some ?B, Some (Fin 60), [?p1, ?p2])"
    unfolding s es af by (simp add: lb)
  with ne pos perm s show ?thesis by (simp add: list_all_iff)
qed

text \<open>
  The claim as stated, for every piece list, does not hold of the source. Two pieces of
  height 0 are packed in two passes; both layouts have length 0, and the test
  \<^verbatim>\<open>not best_len\<close> is true of a zero, so the later layout replaces the earlier one.
\<close>

theorem optimize_keeps_shortest_counterexample:
  "successes 137 [rev, rev] [\<lparr>pid = 1, orientations = [(Fin 1, Fin 0)]\<rparr>,
                              \<lparr>pid = 2, orientations = [(Fin 2, Fin 0)]\<rparr>]
     = [[(2, Fin 0, Fin 0, Fin 2, Fin 0), (1, Fin 0, Fin 0, Fin 1, Fin 0)],
        [(1, Fin 0, Fin 0, Fin 1, Fin 0), (2, Fin 0, Fin 0, Fin 2, Fin 0)]]
   \<and> length_layout [(2, Fin 0, Fin 0, Fin 2, Fin 0), (1, Fin 0, Fin 0, Fin 1, Fin 0)] = Inr (Fin 0)
   \<and> length_layout [(1, Fin 0, Fin 0, Fin 1, Fin 0), (2, Fin 0, Fin 0, Fin 2, Fin 0)] = Inr (Fin 0)
   \<and> optimize 137 [rev, rev] [\<lparr>pid = 1, orientations = [(Fin 1, Fin 0)]\<rparr>,
                               \<lparr>pid = 2, orientations = [(Fin 2, Fin 0)]\<rparr>]
     = Inr (Some [(1, Fin 0, Fin 0, Fin 1, Fin 0), (2, Fin 0, Fin 0, Fin 2, Fin 0)], Some (Fin 0),
            [\<lparr>pid = 1, orientations = [(Fin 1, Fin 0)]\<rparr>, \<lparr>pid = 2, orientations = [(Fin 2, Fin 0)]\<rparr>])"
  by (simp add: optimize_def successes_def replaces_def pack_eval)

end
